theory Spec2Isabelle
  imports Complex_Main "HOL-Library.Sublist" "HOL-Library.Multiset"
begin

section \<open>Data model of \<^verbatim>\<open>start.js\<close>\<close>

text \<open>
  The catalog and the spec file are JSON. Every field the program reads is a JSON string or
  is \<^verbatim>\<open>null\<close>/absent, so a field is a \<open>string option\<close> with \<open>None\<close> for
  \<^verbatim>\<open>null\<close> and \<^verbatim>\<open>undefined\<close>. On such values the loose equality
  \<^verbatim>\<open>==\<close> of the source is equality of options: \<^verbatim>\<open>null == undefined\<close> holds,
  \<^verbatim>\<open>null == ""\<close> does not, and two strings are compared as strings. Numbers and booleans
  in these fields are outside the model.
\<close>

record Browser =
  os :: "string option"
  os_version :: "string option"
  browser :: "string option"
  browser_version :: "string option"
  device :: "string option"

text \<open>
  The object returned by \<^verbatim>\<open>parseBrowserVersion\<close>: \<^verbatim>\<open>{type: 'no-version'}\<close>,
  \<^verbatim>\<open>{type: 'list', value: [...]}\<close> or \<^verbatim>\<open>{type: 'last', value: res[1]}\<close>. In the
  source \<^verbatim>\<open>res[1]\<close> is a string of decimal digits, which \<^verbatim>\<open><\<close> and
  \<^verbatim>\<open>slice\<close> convert to a number where they use it; the model stores that number. The
  conversion rounds to a double only above \<open>2^53\<close>, far above any array length it is
  compared with, so the comparison is the one on naturals.
\<close>

datatype version = NoVersion | ExactList "string list" | LastN nat

text \<open>The object built for every entry of a group in \<^verbatim>\<open>getTargetBrowsers\<close>.\<close>

record BrowserSpec =
  spec_device :: "string option"
  spec_os :: "string option"
  spec_os_version :: "string option"
  spec_browser :: "string option"
  spec_browser_version :: version

text \<open>An element of \<^verbatim>\<open>browsers.json\<close> and an element of its \<^verbatim>\<open>browsers\<close> array.\<close>

record BrowserVersionSpec =
  entry_browser :: "string option"
  entry_browser_version :: "string option"

record GroupedBrowserSpec =
  group_os :: "string option"
  group_os_version :: "string option"
  group_device :: "string option"
  group_browsers :: "BrowserVersionSpec list"

text \<open>
  What is written to standard error: a line of text, or \<^verbatim>\<open>JSON.stringify(spec, null, '\t')\<close>,
  kept as the spec it prints. \<^verbatim>\<open>process.exit(code)\<close> ends the run: a value
  \<open>ProcessExit code lines\<close>, with the lines written before it.
\<close>

datatype console = Text string | Json BrowserSpec

datatype failure = ProcessExit (status: nat) (stderr: "console list")

section \<open>JavaScript built-ins\<close>

subsection \<open>Truthiness, digits, regular expressions\<close>

definition truthy :: "string option \<Rightarrow> bool" where
  "truthy v = (case v of None \<Rightarrow> False | Some s \<Rightarrow> s \<noteq> [])"

definition is_digit :: "char \<Rightarrow> bool" where
  "is_digit c = (c \<in> set ''0123456789'')"

definition digit_val :: "char \<Rightarrow> nat" where
  "digit_val c = of_char c - 48"

text \<open>The number a string of decimal digits denotes.\<close>

definition to_number :: "string \<Rightarrow> nat" where
  "to_number ds = foldl (\<lambda>n c. 10 * n + digit_val c) 0 ds"

text \<open>
  \<^verbatim>\<open>/last (\d+)/.exec(s)\<close>: the pattern is not anchored, so the search tries every start
  position from the left; \<^verbatim>\<open>\d+\<close> is greedy. The result is \<^verbatim>\<open>res[1]\<close>, or
  \<open>None\<close> for \<^verbatim>\<open>null\<close>.
\<close>

fun exec_last :: "string \<Rightarrow> string option" where
  "exec_last [] = None"
| "exec_last (c # cs) =
     (if take 5 (c # cs) = ''last '' \<and> takeWhile is_digit (drop 5 (c # cs)) \<noteq> []
      then Some (takeWhile is_digit (drop 5 (c # cs)))
      else exec_last cs)"

text \<open>
  \<^verbatim>\<open>/^\d+(\.\d+)?$/.exec(s)\<close> as a test: all leading digits, then either the end of the
  string or a dot followed by digits up to the end. Without the \<^verbatim>\<open>m\<close> flag
  \<^verbatim>\<open>$\<close> matches at the end of the input only.
\<close>

definition exec_stable :: "string \<Rightarrow> bool" where
  "exec_stable s =
     (takeWhile is_digit s \<noteq> [] \<and>
      (case dropWhile is_digit s of
         [] \<Rightarrow> True
       | c # fs \<Rightarrow> c = CHR ''.'' \<and> fs \<noteq> [] \<and> list_all is_digit fs))"

subsection \<open>\<^verbatim>\<open>String.prototype.split\<close> and \<^verbatim>\<open>Array.prototype.join\<close>\<close>

fun split_from :: "char \<Rightarrow> string \<Rightarrow> string \<Rightarrow> string list" where
  "split_from sep piece [] = [piece]"
| "split_from sep piece (c # cs) =
     (if c = sep then piece # split_from sep [] cs else split_from sep (piece @ [c]) cs)"

definition split :: "string \<Rightarrow> char \<Rightarrow> string list" where
  "split s sep = split_from sep [] s"

text \<open>\<^verbatim>\<open>join\<close> writes \<^verbatim>\<open>null\<close> and \<^verbatim>\<open>undefined\<close> elements as the empty string.\<close>

definition element_string :: "string option \<Rightarrow> string" where
  "element_string v = (case v of None \<Rightarrow> [] | Some s \<Rightarrow> s)"

fun join :: "string option list \<Rightarrow> string \<Rightarrow> string" where
  "join [] sep = []"
| "join [v] sep = element_string v"
| "join (v # w # vs) sep = element_string v @ sep @ join (w # vs) sep"

subsection \<open>\<^verbatim>\<open>parseFloat\<close> and number subtraction\<close>

text \<open>
  A JavaScript number is \<^verbatim>\<open>NaN\<close>, an infinity (\<open>Infinity True\<close> is the negative one) or a
  finite value. The model keeps the exact decimal value where JavaScript keeps the nearest
  double; rounding is monotone, and on decimals of at most 15 significant digits it is
  injective, so there the sign of a difference is the same in both.
\<close>

datatype number = NaN | Num rat | Infinity bool

definition is_space :: "char \<Rightarrow> bool" where
  "is_space c = (c \<in> set [CHR 0x09, CHR 0x0A, CHR 0x0B, CHR 0x0C, CHR 0x0D, CHR 0x20])"

definition scale10 :: "rat \<Rightarrow> int \<Rightarrow> rat" where
  "scale10 q e = (if 0 \<le> e then q * 10 ^ nat e else q / 10 ^ nat (- e))"

text \<open>The value of an exponent part at the head of \<open>r\<close>, 0 when there is none.\<close>

definition exponent_part :: "string \<Rightarrow> int" where
  "exponent_part r =
     (case r of
        [] \<Rightarrow> 0
      | c # r1 \<Rightarrow>
          if c = CHR ''e'' \<or> c = CHR ''E'' then
            (case r1 of
               [] \<Rightarrow> 0
             | d # r2 \<Rightarrow>
                 if d = CHR ''-'' then - int (to_number (takeWhile is_digit r2))
                 else if d = CHR ''+'' then int (to_number (takeWhile is_digit r2))
                 else int (to_number (takeWhile is_digit r1)))
          else 0)"

text \<open>
  \<^verbatim>\<open>parseFloat(v)\<close>: the argument is converted to a string (\<^verbatim>\<open>null\<close> becomes
  \<^verbatim>\<open>"null"\<close>, which parses to \<^verbatim>\<open>NaN\<close>), leading white space is skipped, and the
  longest prefix that is a decimal literal is read; what follows it is ignored. Strings
  are lists of 8-bit characters here, and the white space is the ASCII one; overflow of
  the exponent range to an infinity is not modelled.
\<close>

definition parseFloat :: "string option \<Rightarrow> number" where
  "parseFloat v =
     (case v of
        None \<Rightarrow> NaN
      | Some str \<Rightarrow>
          (let t = dropWhile is_space str;
               neg = (take 1 t = ''-'');
               u = (if take 1 t = ''-'' \<or> take 1 t = ''+'' then drop 1 t else t)
           in if take 8 u = ''Infinity'' then Infinity neg
              else
                (let ip = takeWhile is_digit u;
                     r1 = dropWhile is_digit u;
                     fp = (if take 1 r1 = ''.'' then takeWhile is_digit (drop 1 r1) else []);
                     r2 = (if take 1 r1 = ''.'' then dropWhile is_digit (drop 1 r1) else r1)
                 in if ip = [] \<and> fp = [] then NaN
                    else Num (scale10 ((if neg then - 1 else 1) * of_nat (to_number (ip @ fp)))
                                (exponent_part r2 - int (length fp))))))"

fun number_minus :: "number \<Rightarrow> number \<Rightarrow> number" where
  "number_minus (Num x) (Num y) = Num (x - y)"
| "number_minus NaN y = NaN"
| "number_minus x NaN = NaN"
| "number_minus (Infinity s) (Infinity t) = (if s = t then NaN else Infinity s)"
| "number_minus (Infinity s) (Num y) = Infinity s"
| "number_minus (Num x) (Infinity t) = Infinity (\<not> t)"

definition negative :: "number \<Rightarrow> bool" where
  "negative v = (case v of NaN \<Rightarrow> False | Num q \<Rightarrow> q < 0 | Infinity s \<Rightarrow> s)"

subsection \<open>\<^verbatim>\<open>Array.prototype.sort\<close>\<close>

text \<open>
  The language fixes the result of \<^verbatim>\<open>sort\<close> for a consistent comparator: the stable
  ordering by it (a comparator result of \<^verbatim>\<open>NaN\<close> counts as \<open>+0\<close>). The model is stable
  insertion: \<open>y\<close> stays in front of \<open>x\<close> exactly when \<^verbatim>\<open>comparefn(y, x) < 0\<close>. For a
  comparator that is not consistent the language leaves the order to the implementation;
  the model then still returns a permutation.
\<close>

fun insert_sorted :: "('a \<Rightarrow> 'a \<Rightarrow> number) \<Rightarrow> 'a \<Rightarrow> 'a list \<Rightarrow> 'a list" where
  "insert_sorted comparefn x [] = [x]"
| "insert_sorted comparefn x (y # ys) =
     (if negative (comparefn y x) then y # insert_sorted comparefn x ys else x # y # ys)"

fun array_sort :: "('a \<Rightarrow> 'a \<Rightarrow> number) \<Rightarrow> 'a list \<Rightarrow> 'a list" where
  "array_sort comparefn [] = []"
| "array_sort comparefn (x # xs) = insert_sorted comparefn x (array_sort comparefn xs)"

section \<open>The catalog fetcher\<close>

text \<open>
  \<^verbatim>\<open>browser => !browser.browser_version || (browser.browser_version && /^\d+(\.\d+)?$/.exec(...))\<close>
\<close>

definition stable_filter :: "Browser \<Rightarrow> bool" where
  "stable_filter b =
     (\<not> truthy (browser_version b) \<or>
      (truthy (browser_version b) \<and>
       (case browser_version b of None \<Rightarrow> False | Some s \<Rightarrow> exec_stable s)))"

text \<open>
  \<^verbatim>\<open>loadAvailableBrowsers\<close>: the argument is the outcome of the awaited provider call,
  \<open>Inl\<close> when the promise is rejected, which propagates.
\<close>

definition loadAvailableBrowsers :: "'e + Browser list \<Rightarrow> 'e + Browser list" where
  "loadAvailableBrowsers fetched =
     (case fetched of
        Inl error \<Rightarrow> Inl error
      | Inr browsers \<Rightarrow> Inr (filter stable_filter browsers))"

section \<open>The matcher\<close>

definition parseBrowserVersion :: "string option \<Rightarrow> version" where
  "parseBrowserVersion v =
     (if truthy v then
        (case v of
           None \<Rightarrow> NoVersion
         | Some s \<Rightarrow>
             (case exec_last s of
                Some d \<Rightarrow> LastN (to_number d)
              | None \<Rightarrow> ExactList (split s (CHR '',''))))
      else NoVersion)"

text \<open>The predicate of the first \<^verbatim>\<open>filter\<close>, with \<^verbatim>\<open>==\<close> as equality of options.\<close>

definition matches :: "BrowserSpec \<Rightarrow> Browser \<Rightarrow> bool" where
  "matches spec b =
     (spec_device spec = device b \<and>
      spec_os spec = os b \<and>
      spec_os_version spec = os_version b \<and>
      spec_browser spec = browser b)"

text \<open>
  \<^verbatim>\<open>versions.includes(browser.browser_version)\<close> compares without conversion, so a
  \<^verbatim>\<open>null\<close> version is in no list of strings.
\<close>

definition array_includes :: "string list \<Rightarrow> string option \<Rightarrow> bool" where
  "array_includes versions v = (case v of None \<Rightarrow> False | Some s \<Rightarrow> s \<in> set versions)"

text \<open>\<^verbatim>\<open>(a, b) => parseFloat(b.browser_version) - parseFloat(a.browser_version)\<close>\<close>

definition compare_versions :: "Browser \<Rightarrow> Browser \<Rightarrow> number" where
  "compare_versions a b = number_minus (parseFloat (browser_version b)) (parseFloat (browser_version a))"

definition fatal :: "string \<Rightarrow> BrowserSpec \<Rightarrow> failure" where
  "fatal message spec = ProcessExit 1 [Text message, Json spec, Text ''Exiting...'']"

text \<open>The check of lines 139 to 146, shared by the three kinds of constraint.\<close>

definition check_available :: "BrowserSpec \<Rightarrow> Browser list \<Rightarrow> failure + Browser list" where
  "check_available spec browsers =
     (if length browsers = 0
      then Inl (fatal ''No browsers available for the following spec:'' spec)
      else Inr browsers)"

definition getBrowsersThatMatchSpec :: "Browser list \<Rightarrow> BrowserSpec \<Rightarrow> failure + Browser list" where
  "getBrowsersThatMatchSpec availableBrowsers spec =
     (let browsers = filter (matches spec) availableBrowsers
      in case spec_browser_version spec of
           ExactList versions \<Rightarrow>
             check_available spec
               (filter (\<lambda>browser. array_includes versions (browser_version browser)) browsers)
         | LastN n \<Rightarrow>
             (let sorted = array_sort compare_versions browsers
              in if length sorted < n
                 then Inl (fatal ''Not enough versions available for the following spec:'' spec)
                 else check_available spec (take n sorted))
         | NoVersion \<Rightarrow> check_available spec browsers)"

section \<open>The aggregator\<close>

definition getBrowserId :: "Browser \<Rightarrow> string" where
  "getBrowserId b = join [os b, os_version b, browser b, browser_version b, device b] ''_''"

text \<open>
  \<^verbatim>\<open>targetBrowsers\<close> is a plain object \<^verbatim>\<open>{}\<close> used as a map. Its own properties are kept
  in creation order, which is the order of \<^verbatim>\<open>Object.values\<close> for keys that are not array
  indices (an id holds underscores, so it is none). The object inherits from
  \<^verbatim>\<open>Object.prototype\<close>: the operator \<^verbatim>\<open>in\<close> also finds the inherited names, and an
  assignment to the key \<^verbatim>\<open>__proto__\<close> runs the inherited setter, which replaces the
  prototype of the object by the assigned object and creates no own property.
\<close>

record BrowserMap =
  entries :: "(string \<times> Browser) list"
  proto :: "Browser option"

definition empty_object :: BrowserMap where
  "empty_object = \<lparr>entries = [], proto = None\<rparr>"

definition Object_prototype_keys :: "string list" where
  "Object_prototype_keys =
     [''constructor'', ''__defineGetter__'', ''__defineSetter__'', ''hasOwnProperty'',
      ''__lookupGetter__'', ''__lookupSetter__'', ''isPrototypeOf'', ''propertyIsEnumerable'',
      ''toString'', ''valueOf'', ''__proto__'', ''toLocaleString'']"

definition Browser_keys :: "string list" where
  "Browser_keys = [''os'', ''os_version'', ''browser'', ''browser_version'', ''device'']"

text \<open>\<^verbatim>\<open>id in browserMap\<close>: own properties, then the prototype chain.\<close>

definition has_property :: "string \<Rightarrow> BrowserMap \<Rightarrow> bool" where
  "has_property k m =
     (k \<in> set (map fst (entries m)) \<or>
      (proto m \<noteq> None \<and> k \<in> set Browser_keys) \<or>
      k \<in> set Object_prototype_keys)"

text \<open>\<^verbatim>\<open>browserMap[id] = browser\<close>\<close>

definition assign :: "BrowserMap \<Rightarrow> string \<Rightarrow> Browser \<Rightarrow> BrowserMap" where
  "assign m k b =
     (if k = ''__proto__'' then m\<lparr>proto := Some b\<rparr>
      else if k \<in> set (map fst (entries m))
      then m\<lparr>entries := map (\<lambda>(k', v). if k' = k then (k', b) else (k', v)) (entries m)\<rparr>
      else m\<lparr>entries := entries m @ [(k, b)]\<rparr>)"

definition Object_values :: "BrowserMap \<Rightarrow> Browser list" where
  "Object_values m = map snd (entries m)"

text \<open>
  The state of the aggregation: the map and the lines written to standard error so far
  (\<^verbatim>\<open>console.warn\<close> writes there). \<open>addBrowser\<close> is the body of the \<^verbatim>\<open>forEach\<close> in
  \<^verbatim>\<open>addBrowsers\<close>.
\<close>

type_synonym aggregation = "BrowserMap \<times> console list"

definition addBrowser :: "aggregation \<Rightarrow> Browser \<Rightarrow> aggregation" where
  "addBrowser st b =
     (let browserMap = fst st; out = snd st; id = getBrowserId b
      in (assign browserMap id b,
          if has_property id browserMap then out @ [Text ''duplicate browser''] else out))"

definition addBrowsers :: "aggregation \<Rightarrow> Browser list \<Rightarrow> aggregation" where
  "addBrowsers st bs = foldl addBrowser st bs"

definition resolve :: "GroupedBrowserSpec \<Rightarrow> BrowserSpec list" where
  "resolve aggregatedSpec =
     map (\<lambda>spec. \<lparr>spec_device = group_device aggregatedSpec,
                  spec_os = group_os aggregatedSpec,
                  spec_os_version = group_os_version aggregatedSpec,
                  spec_browser = entry_browser spec,
                  spec_browser_version = parseBrowserVersion (entry_browser_version spec)\<rparr>)
         (group_browsers aggregatedSpec)"

text \<open>
  The two nested \<^verbatim>\<open>forEach\<close> loops of \<^verbatim>\<open>getTargetBrowsers\<close>. A fatal exit ends both;
  its standard error holds the warnings written before it.
\<close>

fun forEach_spec :: "Browser list \<Rightarrow> aggregation \<Rightarrow> BrowserSpec list \<Rightarrow> failure + aggregation" where
  "forEach_spec availableBrowsers st [] = Inr st"
| "forEach_spec availableBrowsers st (spec # specs) =
     (case getBrowsersThatMatchSpec availableBrowsers spec of
        Inl e \<Rightarrow> Inl (ProcessExit (status e) (snd st @ stderr e))
      | Inr bs \<Rightarrow> forEach_spec availableBrowsers (addBrowsers st bs) specs)"

fun forEach_group ::
  "Browser list \<Rightarrow> aggregation \<Rightarrow> GroupedBrowserSpec list \<Rightarrow> failure + aggregation" where
  "forEach_group availableBrowsers st [] = Inr st"
| "forEach_group availableBrowsers st (aggregatedSpec # rest) =
     (case forEach_spec availableBrowsers st (resolve aggregatedSpec) of
        Inl e \<Rightarrow> Inl e
      | Inr st' \<Rightarrow> forEach_group availableBrowsers st' rest)"

text \<open>The result: the target list and the warnings written.\<close>

definition getTargetBrowsers ::
  "Browser list \<Rightarrow> GroupedBrowserSpec list \<Rightarrow> failure + (Browser list \<times> console list)" where
  "getTargetBrowsers availableBrowsers aggregatedSpecs =
     (case forEach_group availableBrowsers (empty_object, []) aggregatedSpecs of
        Inl e \<Rightarrow> Inl e
      | Inr st \<Rightarrow> Inr (Object_values (fst st), snd st))"

section \<open>The matcher over a store of arrays\<close>

text \<open>
  The functions above pass arrays as values. To say what the run does to the array it is
  given, the same code is modelled once more over a store: an array is an address into a
  list of arrays, \<^verbatim>\<open>filter\<close> and \<^verbatim>\<open>slice\<close> allocate a fresh array, and
  \<^verbatim>\<open>sort\<close> overwrites the array it is called on. The elements are the catalog's objects;
  no statement of the source assigns to a property of one, so they stay values.
\<close>

type_synonym heap = "Browser list list"

definition alloc :: "heap \<Rightarrow> Browser list \<Rightarrow> heap \<times> nat" where
  "alloc h xs = (h @ [xs], length h)"

definition check_available_at :: "heap \<Rightarrow> BrowserSpec \<Rightarrow> nat \<Rightarrow> heap \<times> (failure + nat)" where
  "check_available_at h spec browsers =
     (if length (h ! browsers) = 0
      then (h, Inl (fatal ''No browsers available for the following spec:'' spec))
      else (h, Inr browsers))"

definition getBrowsersThatMatchSpec_at ::
  "heap \<Rightarrow> nat \<Rightarrow> BrowserSpec \<Rightarrow> heap \<times> (failure + nat)" where
  "getBrowsersThatMatchSpec_at h availableBrowsers spec =
     (case alloc h (filter (matches spec) (h ! availableBrowsers)) of
        (h1, browsers) \<Rightarrow>
          (case spec_browser_version spec of
             ExactList versions \<Rightarrow>
               (case alloc h1 (filter (\<lambda>browser. array_includes versions (browser_version browser))
                                 (h1 ! browsers)) of
                  (h2, browsers') \<Rightarrow> check_available_at h2 spec browsers')
           | LastN n \<Rightarrow>
               (let h2 = h1[browsers := array_sort compare_versions (h1 ! browsers)]
                in if length (h2 ! browsers) < n
                   then (h2, Inl (fatal ''Not enough versions available for the following spec:'' spec))
                   else (case alloc h2 (take n (h2 ! browsers)) of
                           (h3, browsers') \<Rightarrow> check_available_at h3 spec browsers'))
           | NoVersion \<Rightarrow> check_available_at h1 spec browsers))"

fun forEach_spec_at ::
  "heap \<Rightarrow> nat \<Rightarrow> aggregation \<Rightarrow> BrowserSpec list \<Rightarrow> heap \<times> (failure + aggregation)" where
  "forEach_spec_at h availableBrowsers st [] = (h, Inr st)"
| "forEach_spec_at h availableBrowsers st (spec # specs) =
     (case getBrowsersThatMatchSpec_at h availableBrowsers spec of
        (h', Inl e) \<Rightarrow> (h', Inl (ProcessExit (status e) (snd st @ stderr e)))
      | (h', Inr bs) \<Rightarrow> forEach_spec_at h' availableBrowsers (addBrowsers st (h' ! bs)) specs)"

fun forEach_group_at ::
  "heap \<Rightarrow> nat \<Rightarrow> aggregation \<Rightarrow> GroupedBrowserSpec list \<Rightarrow> heap \<times> (failure + aggregation)" where
  "forEach_group_at h availableBrowsers st [] = (h, Inr st)"
| "forEach_group_at h availableBrowsers st (aggregatedSpec # rest) =
     (case forEach_spec_at h availableBrowsers st (resolve aggregatedSpec) of
        (h', Inl e) \<Rightarrow> (h', Inl e)
      | (h', Inr st') \<Rightarrow> forEach_group_at h' availableBrowsers st' rest)"

text \<open>The result is the address of the array that \<^verbatim>\<open>Object.values\<close> creates.\<close>

definition getTargetBrowsers_at ::
  "heap \<Rightarrow> nat \<Rightarrow> GroupedBrowserSpec list \<Rightarrow> heap \<times> (failure + nat \<times> console list)" where
  "getTargetBrowsers_at h availableBrowsers aggregatedSpecs =
     (case forEach_group_at h availableBrowsers (empty_object, []) aggregatedSpecs of
        (h', Inl e) \<Rightarrow> (h', Inl e)
      | (h', Inr st) \<Rightarrow>
          (case alloc h' (Object_values (fst st)) of (h'', vs) \<Rightarrow> (h'', Inr (vs, snd st))))"

text \<open>Every array of \<open>h\<close> is still there in \<open>h'\<close>, with the same elements in the same order.\<close>

definition frame :: "heap \<Rightarrow> heap \<Rightarrow> bool" where
  "frame h h' = (length h \<le> length h' \<and> (\<forall>p < length h. h' ! p = h ! p))"

section \<open>The notions of the specification\<close>

text \<open>
  The pattern "last N": the literal \<^verbatim>\<open>last\<close> and a space, followed by an integer (one or
  more decimal digits), standing between \<open>pre\<close> and \<open>rest\<close>. A string matches the pattern
  when it holds such an occurrence; a regular expression without anchors asks no more.
\<close>

definition integer_string :: "string \<Rightarrow> bool" where
  "integer_string ds = (ds \<noteq> [] \<and> list_all is_digit ds)"

definition occurs_last :: "string \<Rightarrow> string \<Rightarrow> string \<Rightarrow> string \<Rightarrow> bool" where
  "occurs_last s pre ds rest = (s = pre @ ''last '' @ ds @ rest \<and> integer_string ds)"

definition matches_last_N :: "string \<Rightarrow> bool" where
  "matches_last_N s = (\<exists>pre ds rest. occurs_last s pre ds rest)"

text \<open>The pattern "integer, optionally dot-integer", with nothing before or after.\<close>

definition stable_pattern :: "string \<Rightarrow> bool" where
  "stable_pattern s =
     (integer_string s \<or> (\<exists>ds fs. s = ds @ ''.'' @ fs \<and> integer_string ds \<and> integer_string fs))"

text \<open>Step 1 of the matching: the catalog entries whose four fields equal the spec's.\<close>

definition candidates :: "Browser list \<Rightarrow> BrowserSpec \<Rightarrow> Browser list" where
  "candidates catalog spec =
     filter (\<lambda>b. device b = spec_device spec \<and> os b = spec_os spec \<and>
                 os_version b = spec_os_version spec \<and> browser b = spec_browser spec) catalog"

text \<open>
  A numeric version string: the stable pattern, of at most 15 characters, so that the
  double JavaScript computes orders such strings as their exact values do. The number of a
  catalog entry is what \<^verbatim>\<open>parseFloat\<close> returns for its version.
\<close>

definition numeric_version :: "string option \<Rightarrow> bool" where
  "numeric_version v = (\<exists>s. v = Some s \<and> stable_pattern s \<and> length s \<le> 15)"

definition version_number :: "Browser \<Rightarrow> rat" where
  "version_number b = (case parseFloat (browser_version b) of Num q \<Rightarrow> q | _ \<Rightarrow> 0)"

text \<open>
  The two fatal conditions. Fewer candidates than a \<open>LastN\<close> asks for; and nothing left
  after the constraint is applied: for \<open>LastN n\<close> the first \<open>n\<close> of the sorted candidates,
  which are none exactly when \<open>n = 0\<close> or there is no candidate.
\<close>

definition insufficient :: "Browser list \<Rightarrow> BrowserSpec \<Rightarrow> bool" where
  "insufficient catalog spec =
     (case spec_browser_version spec of
        LastN n \<Rightarrow> length (candidates catalog spec) < n
      | ExactList vs \<Rightarrow> False
      | NoVersion \<Rightarrow> False)"

definition nothing_left :: "Browser list \<Rightarrow> BrowserSpec \<Rightarrow> bool" where
  "nothing_left catalog spec =
     (case spec_browser_version spec of
        LastN n \<Rightarrow> n = 0 \<or> candidates catalog spec = []
      | ExactList vs \<Rightarrow>
          filter (\<lambda>b. \<exists>v \<in> set vs. browser_version b = Some v) (candidates catalog spec) = []
      | NoVersion \<Rightarrow> candidates catalog spec = [])"

section \<open>Example inputs\<close>

definition chrome :: "string \<Rightarrow> Browser" where
  "chrome v = \<lparr>os = Some ''Windows'', os_version = Some ''10'', browser = Some ''chrome'',
               browser_version = Some v, device = None\<rparr>"

text \<open>The catalog entry of the example in the specification.\<close>

definition iphone7 :: Browser where
  "iphone7 = \<lparr>os = Some ''ios'', os_version = Some ''10.3'', browser = Some ''Mobile Safari'',
               browser_version = Some ''10.3'', device = Some ''iPhone 7''\<rparr>"

definition example_catalog :: "Browser list" where
  "example_catalog =
     [chrome ''56.0'', chrome ''58.0'', iphone7, chrome ''9.0'', chrome ''57.0'', chrome ''100.0'']"

definition chrome_spec :: "version \<Rightarrow> BrowserSpec" where
  "chrome_spec v = \<lparr>spec_device = None, spec_os = Some ''Windows'', spec_os_version = Some ''10'',
                    spec_browser = Some ''chrome'', spec_browser_version = v\<rparr>"

definition iphone7_spec :: BrowserSpec where
  "iphone7_spec = \<lparr>spec_device = Some ''iPhone 7'', spec_os = Some ''ios'',
                    spec_os_version = Some ''10.3'', spec_browser = Some ''Mobile Safari'',
                    spec_browser_version = NoVersion\<rparr>"

definition chrome_group :: "string option list \<Rightarrow> GroupedBrowserSpec" where
  "chrome_group vs =
     \<lparr>group_os = Some ''Windows'', group_os_version = Some ''10'', group_device = None,
      group_browsers = map (\<lambda>v. \<lparr>entry_browser = Some ''chrome'', entry_browser_version = v\<rparr>) vs\<rparr>"

text \<open>
  Two catalog entries that differ in where an underscore stands, and the groups that select
  them.
\<close>

definition osx_a :: Browser where
  "osx_a = \<lparr>os = Some ''OS_X'', os_version = Some ''Sierra'', browser = Some ''safari'',
             browser_version = Some ''10.1'', device = None\<rparr>"

definition osx_b :: Browser where
  "osx_b = \<lparr>os = Some ''OS'', os_version = Some ''X_Sierra'', browser = Some ''safari'',
             browser_version = Some ''10.1'', device = None\<rparr>"

definition group_of :: "Browser \<Rightarrow> GroupedBrowserSpec" where
  "group_of b =
     \<lparr>group_os = os b, group_os_version = os_version b, group_device = device b,
      group_browsers = [\<lparr>entry_browser = browser b, entry_browser_version = None\<rparr>]\<rparr>"

text \<open>A catalog entry whose id is the key \<^verbatim>\<open>__proto__\<close>.\<close>

definition proto_browser :: Browser where
  "proto_browser = \<lparr>os = Some [], os_version = Some [], browser = Some ''proto'',
                     browser_version = Some [], device = Some []\<rparr>"

section \<open>Evaluation of the examples\<close>

lemmas builtin_defs =
  truthy_def is_digit_def digit_val_def to_number_def is_space_def exponent_part_def scale10_def
  parseFloat_def negative_def compare_versions_def element_string_def split_def

lemmas example_defs = chrome_def iphone7_def example_catalog_def chrome_spec_def

lemmas matcher_defs =
  getBrowsersThatMatchSpec_def check_available_def matches_def array_includes_def fatal_def
  parseBrowserVersion_def resolve_def

lemmas aggregator_defs =
  getTargetBrowsers_def addBrowsers_def addBrowser_def getBrowserId_def has_property_def
  assign_def empty_object_def Object_values_def Object_prototype_keys_def Browser_keys_def

section \<open>Parsing a version constraint\<close>

lemma takeWhile_all: "list_all P xs \<Longrightarrow> takeWhile P xs = xs"
  by (simp add: list_all_iff)

lemma dropWhile_all: "list_all P xs \<Longrightarrow> dropWhile P xs = []"
  by (simp add: list_all_iff)

lemma takeWhile_digits_append:
  "integer_string ds \<Longrightarrow> takeWhile is_digit (ds @ rest) \<noteq> []"
  by (cases ds) (auto simp: integer_string_def)

lemma occurs_last_head:
  assumes "occurs_last s [] ds rest"
  shows "take 5 s = ''last '' \<and> takeWhile is_digit (drop 5 s) \<noteq> []"
  using assms takeWhile_digits_append [of ds rest] by (simp add: occurs_last_def)

lemma occurs_last_Cons:
  "occurs_last (c # cs) (p # pre) ds rest \<longleftrightarrow> p = c \<and> occurs_last cs pre ds rest"
  by (auto simp: occurs_last_def)

text \<open>
  What \<open>exec_last\<close> returns is the integer of an occurrence of the pattern: the leftmost
  one, with all the digits that follow the literal.
\<close>

lemma exec_last_Some:
  "exec_last s = Some d \<Longrightarrow>
     \<exists>pre rest. occurs_last s pre d rest \<and> (\<forall>c r. rest = c # r \<longrightarrow> \<not> is_digit c) \<and>
       (\<forall>pre' ds' rest'. occurs_last s pre' ds' rest' \<longrightarrow> length pre \<le> length pre')"
proof (induction s)
  case Nil
  then show ?case by simp
next
  case (Cons c cs)
  let ?s = "c # cs"
  show ?case
  proof (cases "take 5 ?s = ''last '' \<and> takeWhile is_digit (drop 5 ?s) \<noteq> []")
    case True
    then have d: "d = takeWhile is_digit (drop 5 ?s)" using Cons.prems by simp
    have "?s = take 5 ?s @ drop 5 ?s" by (rule append_take_drop_id [symmetric])
    also have "drop 5 ?s = d @ dropWhile is_digit (drop 5 ?s)" by (simp add: d)
    finally have s: "?s = [] @ ''last '' @ d @ dropWhile is_digit (drop 5 ?s)"
      using True by simp
    have dig: "list_all is_digit d"
      unfolding d list_all_iff by (auto dest: set_takeWhileD)
    have "occurs_last ?s [] d (dropWhile is_digit (drop 5 ?s))"
      unfolding occurs_last_def integer_string_def
    proof (intro conjI)
      show "?s = [] @ ''last '' @ d @ dropWhile is_digit (drop 5 ?s)" by (rule s)
      show "d \<noteq> []" using True d by simp
      show "list_all is_digit d" by (rule dig)
    qed
    moreover have "\<forall>c' r. dropWhile is_digit (drop 5 ?s) = c' # r \<longrightarrow> \<not> is_digit c'"
      by (metis hd_dropWhile list.sel(1) list.distinct(1))
    ultimately show ?thesis by (intro exI [of _ "[]"] exI conjI) auto
  next
    case False
    then have "exec_last cs = Some d" using Cons.prems by auto
    from Cons.IH [OF this] obtain pre rest where
      o: "occurs_last cs pre d rest" and h: "\<forall>c r. rest = c # r \<longrightarrow> \<not> is_digit c" and
      m: "\<forall>pre' ds' rest'. occurs_last cs pre' ds' rest' \<longrightarrow> length pre \<le> length pre'"
      by blast
    have "occurs_last ?s (c # pre) d rest" using o by (simp add: occurs_last_Cons)
    moreover have "length (c # pre) \<le> length pre'"
      if "occurs_last ?s pre' ds' rest'" for pre' ds' rest'
    proof (cases pre')
      case Nil
      with that False occurs_last_head [of ?s ds' rest'] show ?thesis by blast
    next
      case (Cons p q)
      with that m show ?thesis by (auto simp: occurs_last_Cons)
    qed
    ultimately show ?thesis using h by blast
  qed
qed

lemma exec_last_None: "exec_last s = None \<longleftrightarrow> \<not> matches_last_N s"
proof
  show "\<not> matches_last_N s" if "exec_last s = None"
  proof
    assume "matches_last_N s"
    then obtain pre ds rest where "occurs_last s pre ds rest"
      by (auto simp: matches_last_N_def)
    then show False using that
    proof (induction s arbitrary: pre)
      case Nil
      then show ?case by (simp add: occurs_last_def)
    next
      case (Cons c cs)
      show ?case
      proof (cases pre)
        case Nil
        with Cons.prems occurs_last_head [of "c # cs" ds rest] show ?thesis by auto
      next
        case (Cons p q)
        with Cons.prems Cons.IH [of q] show ?thesis
          by (auto simp: occurs_last_Cons split: if_splits)
      qed
    qed
  qed
  show "exec_last s = None" if "\<not> matches_last_N s"
  proof (rule ccontr)
    assume "exec_last s \<noteq> None"
    then obtain d where "exec_last s = Some d" by auto
    from exec_last_Some [OF this] that show False by (auto simp: matches_last_N_def)
  qed
qed

text \<open>Splitting and joining: the pieces hold no separator, and joined they give the string.\<close>

lemma concat_split_from:
  "concat (map ((@) [sep]) (split_from sep piece s)) = sep # piece @ s"
  by (induction s arbitrary: piece) auto

lemma split_from_not_Nil: "split_from sep piece s \<noteq> []"
  by (induction s arbitrary: piece) auto

lemma join_concat: "ps \<noteq> [] \<Longrightarrow> [c] @ join (map Some ps) [c] = concat (map ((@) [c]) ps)"
  by (induction ps rule: induct_list012) (auto simp: element_string_def)

lemma join_split: "join (map Some (split s sep)) [sep] = s"
  using join_concat [OF split_from_not_Nil, of sep sep "[]" s]
  by (simp add: split_def concat_split_from)

lemma split_from_no_sep:
  "sep \<notin> set piece \<Longrightarrow> \<forall>p \<in> set (split_from sep piece s). sep \<notin> set p"
proof (induction s arbitrary: piece)
  case Nil
  then show ?case by simp
next
  case (Cons c cs)
  show ?case
  proof (cases "c = sep")
    case True
    with Cons.prems Cons.IH [of "[]"] show ?thesis by simp
  next
    case False
    with Cons.prems Cons.IH [of "piece @ [c]"] show ?thesis by simp
  qed
qed

lemma split_no_sep: "p \<in> set (split s sep) \<Longrightarrow> sep \<notin> set p"
  using split_from_no_sep [of sep "[]" s] by (simp add: split_def)

text \<open>
  C3. \<open>parseBrowserVersion\<close> maps an absent or empty raw version to \<open>NoVersion\<close>. A string
  that matches the pattern "last N" is mapped to \<open>LastN\<close> of that integer: for the string
  \<^verbatim>\<open>last\<close>, space, digits it is the number the digits denote, and in general (the pattern is
  searched for, not anchored) it is the integer of the leftmost occurrence, read with all
  its digits. Every other non-empty string is mapped to \<open>ExactList\<close> of its pieces between
  commas: joined by commas they give the raw string back, nothing trimmed, and no piece
  holds a comma.
\<close>

theorem parseBrowserVersion_cases:
  "parseBrowserVersion None = NoVersion \<and>
   parseBrowserVersion (Some []) = NoVersion \<and>
   (integer_string ds \<longrightarrow>
      parseBrowserVersion (Some (''last '' @ ds)) = LastN (to_number ds)) \<and>
   (s \<noteq> [] \<and> matches_last_N s \<longrightarrow>
      (\<exists>pre n rest. occurs_last s pre n rest \<and>
         (\<forall>c r. rest = c # r \<longrightarrow> \<not> is_digit c) \<and>
         (\<forall>pre' n' rest'. occurs_last s pre' n' rest' \<longrightarrow> length pre \<le> length pre') \<and>
         parseBrowserVersion (Some s) = LastN (to_number n))) \<and>
   (s \<noteq> [] \<and> \<not> matches_last_N s \<longrightarrow>
      (\<exists>ps. parseBrowserVersion (Some s) = ExactList ps \<and>
         join (map Some ps) '','' = s \<and> (\<forall>p \<in> set ps. CHR '','' \<notin> set p)))"
proof (intro conjI impI)
  show "parseBrowserVersion None = NoVersion"
    by (simp add: parseBrowserVersion_def truthy_def)
  show "parseBrowserVersion (Some []) = NoVersion"
    by (simp add: parseBrowserVersion_def truthy_def)
next
  assume a: "integer_string ds"
  then have t: "takeWhile is_digit ds = ds" by (simp add: integer_string_def takeWhile_all)
  have "takeWhile is_digit ds \<noteq> []" using a by (simp add: t integer_string_def)
  then have "exec_last (''last '' @ ds) = Some (takeWhile is_digit ds)" by simp
  then have "exec_last (''last '' @ ds) = Some ds" by (simp only: t)
  then show "parseBrowserVersion (Some (''last '' @ ds)) = LastN (to_number ds)"
    by (simp add: parseBrowserVersion_def truthy_def)
next
  assume a: "s \<noteq> [] \<and> matches_last_N s"
  then obtain d where d: "exec_last s = Some d"
    using exec_last_None [of s] by auto
  then have "parseBrowserVersion (Some s) = LastN (to_number d)"
    using a by (simp add: parseBrowserVersion_def truthy_def)
  with exec_last_Some [OF d]
  show "\<exists>pre n rest. occurs_last s pre n rest \<and>
         (\<forall>c r. rest = c # r \<longrightarrow> \<not> is_digit c) \<and>
         (\<forall>pre' n' rest'. occurs_last s pre' n' rest' \<longrightarrow> length pre \<le> length pre') \<and>
         parseBrowserVersion (Some s) = LastN (to_number n)"
    by blast
next
  assume a: "s \<noteq> [] \<and> \<not> matches_last_N s"
  then have "exec_last s = None" by (simp add: exec_last_None)
  then have "parseBrowserVersion (Some s) = ExactList (split s (CHR '',''))"
    using a by (simp add: parseBrowserVersion_def truthy_def)
  then show "\<exists>ps. parseBrowserVersion (Some s) = ExactList ps \<and>
         join (map Some ps) '','' = s \<and> (\<forall>p \<in> set ps. CHR '','' \<notin> set p)"
    using join_split [of s "CHR '',''"] split_no_sep [of _ s "CHR '',''"] by auto
qed

theorem parseBrowserVersion_cases_witness:
  "integer_string ''2'' \<and>
   parseBrowserVersion (Some ''last 2'') = LastN 2 \<and>
   matches_last_N ''the last 12 or last 3'' \<and>
   parseBrowserVersion (Some ''the last 12 or last 3'') = LastN 12 \<and>
   (\<exists>pre n rest. occurs_last ''the last 12 or last 3'' pre n rest \<and>
      parseBrowserVersion (Some ''the last 12 or last 3'') = LastN (to_number n)) \<and>
   \<not> matches_last_N ''9, 10'' \<and>
   parseBrowserVersion (Some ''9, 10'') = ExactList [''9'', '' 10''] \<and>
   (\<exists>ps. parseBrowserVersion (Some ''9, 10'') = ExactList ps \<and> join (map Some ps) '','' = ''9, 10'')"
proof -
  have i: "integer_string ''2''" by (simp add: integer_string_def is_digit_def)
  have m: "matches_last_N ''the last 12 or last 3''"
    using exec_last_None [of "''the last 12 or last 3''"] by (simp add: is_digit_def)
  have n: "\<not> matches_last_N ''9, 10''"
    using exec_last_None [of "''9, 10''"] by (simp add: is_digit_def)
  have "parseBrowserVersion (Some (''last '' @ ''2'')) = LastN (to_number ''2'')"
    using parseBrowserVersion_cases [of "''2''" "''9, 10''"] i by blast
  then have 1: "parseBrowserVersion (Some ''last 2'') = LastN 2"
    by (simp add: to_number_def digit_val_def)
  have 2: "\<exists>pre n rest. occurs_last ''the last 12 or last 3'' pre n rest \<and>
      parseBrowserVersion (Some ''the last 12 or last 3'') = LastN (to_number n)"
    using parseBrowserVersion_cases [of "''2''" "''the last 12 or last 3''"] m by blast
  have 3: "\<exists>ps. parseBrowserVersion (Some ''9, 10'') = ExactList ps \<and>
      join (map Some ps) '','' = ''9, 10''"
    using parseBrowserVersion_cases [of "''2''" "''9, 10''"] n by blast
  have 4: "parseBrowserVersion (Some ''the last 12 or last 3'') = LastN 12"
    by (simp add: parseBrowserVersion_def builtin_defs)
  have 5: "parseBrowserVersion (Some ''9, 10'') = ExactList [''9'', '' 10'']"
    by (simp add: parseBrowserVersion_def builtin_defs)
  show ?thesis using i m n 1 2 3 4 5 by blast
qed

section \<open>The stability filter of the catalog\<close>

lemma not_digit_dot: "\<not> is_digit (CHR ''.'')"
  by (simp add: is_digit_def)

lemma exec_stable_integer: "integer_string s \<Longrightarrow> exec_stable s"
  by (simp add: exec_stable_def integer_string_def takeWhile_all dropWhile_all)

lemma exec_stable_fraction:
  assumes "integer_string ds" "integer_string fs"
  shows "exec_stable (ds @ ''.'' @ fs)"
proof -
  have d: "list_all is_digit ds" "ds \<noteq> []" and f: "list_all is_digit fs" "fs \<noteq> []"
    using assms by (simp_all add: integer_string_def)
  have "takeWhile is_digit (ds @ CHR ''.'' # fs) = ds"
    using d by (simp add: takeWhile_tail not_digit_dot takeWhile_all)
  moreover have "dropWhile is_digit (ds @ CHR ''.'' # fs) = CHR ''.'' # fs"
    using d by (simp add: dropWhile_append3 not_digit_dot dropWhile_all)
  ultimately show ?thesis using d f by (simp add: exec_stable_def)
qed

text \<open>The test the code runs accepts exactly the strings of the pattern.\<close>

lemma exec_stable_pattern: "exec_stable s \<longleftrightarrow> stable_pattern s"
proof
  assume e: "exec_stable s"
  let ?ds = "takeWhile is_digit s"
  have ds: "integer_string ?ds"
    using e by (auto simp: exec_stable_def integer_string_def list_all_iff dest: set_takeWhileD)
  show "stable_pattern s"
  proof (cases "dropWhile is_digit s")
    case Nil
    then have "?ds = s" by (metis takeWhile_dropWhile_id append_Nil2)
    with ds show ?thesis by (simp add: stable_pattern_def)
  next
    case (Cons c fs)
    with e have "c = CHR ''.''" "integer_string fs"
      by (simp_all add: exec_stable_def integer_string_def)
    moreover have "s = ?ds @ c # fs" using Cons by (metis takeWhile_dropWhile_id)
    ultimately show ?thesis using ds unfolding stable_pattern_def
      by (intro disjI2 exI [of _ ?ds] exI [of _ fs]) simp
  qed
next
  assume "stable_pattern s"
  then show "exec_stable s"
    by (auto simp: stable_pattern_def exec_stable_integer dest: exec_stable_fraction)
qed

lemma stable_filter_iff:
  "stable_filter b \<longleftrightarrow>
     browser_version b = None \<or> browser_version b = Some [] \<or>
     (\<exists>s. browser_version b = Some s \<and> stable_pattern s)"
  by (cases "browser_version b") (auto simp: stable_filter_def truthy_def exec_stable_pattern)

text \<open>
  C7, as amended. A failed fetch propagates. Of a fetched catalog,
  \<open>loadAvailableBrowsers\<close> retains an entry if and only if its \<open>browser_version\<close> is absent,
  or is the empty string, or matches the pattern of an integer optionally followed by a dot
  and an integer, with nothing before or after. The retained entries are unchanged and in
  their original order: the result is the fetched list filtered by that condition.
\<close>

theorem loadAvailableBrowsers_retains:
  "loadAvailableBrowsers (Inl e) = Inl e \<and>
   (\<exists>kept. loadAvailableBrowsers (Inr fetched) = Inr kept \<and>
      kept = filter (\<lambda>b. browser_version b = None \<or> browser_version b = Some [] \<or>
                          (\<exists>s. browser_version b = Some s \<and> stable_pattern s)) fetched \<and>
      subseq kept fetched \<and>
      (\<forall>b. b \<in> set kept \<longleftrightarrow>
           b \<in> set fetched \<and>
           (browser_version b = None \<or> browser_version b = Some [] \<or>
            (\<exists>s. browser_version b = Some s \<and> stable_pattern s))))"
proof -
  have "filter stable_filter fetched =
      filter (\<lambda>b. browser_version b = None \<or> browser_version b = Some [] \<or>
                  (\<exists>s. browser_version b = Some s \<and> stable_pattern s)) fetched"
    by (rule filter_cong) (simp_all add: stable_filter_iff)
  then show ?thesis
    by (auto simp: loadAvailableBrowsers_def)
qed

theorem loadAvailableBrowsers_retains_witness:
  "loadAvailableBrowsers
     (Inr [chrome ''58.0'', chrome ''59.0 beta'', iphone7\<lparr>browser_version := None\<rparr>, chrome ''60'',
           chrome ''61.0.1'', chrome ''dev''] :: unit + Browser list) =
     Inr [chrome ''58.0'', iphone7\<lparr>browser_version := None\<rparr>, chrome ''60''] \<and>
   (\<exists>kept. loadAvailableBrowsers
        (Inr [chrome ''58.0'', chrome ''59.0 beta'', iphone7\<lparr>browser_version := None\<rparr>,
              chrome ''60'', chrome ''61.0.1'', chrome ''dev''] :: unit + Browser list) = Inr kept \<and>
      subseq kept [chrome ''58.0'', chrome ''59.0 beta'', iphone7\<lparr>browser_version := None\<rparr>,
                   chrome ''60'', chrome ''61.0.1'', chrome ''dev''])"
proof -
  have "loadAvailableBrowsers
     (Inr [chrome ''58.0'', chrome ''59.0 beta'', iphone7\<lparr>browser_version := None\<rparr>, chrome ''60'',
           chrome ''61.0.1'', chrome ''dev''] :: unit + Browser list) =
     Inr [chrome ''58.0'', iphone7\<lparr>browser_version := None\<rparr>, chrome ''60'']"
    by (simp add: loadAvailableBrowsers_def stable_filter_def exec_stable_def truthy_def
        is_digit_def chrome_def iphone7_def)
  moreover have "\<exists>kept. loadAvailableBrowsers
        (Inr [chrome ''58.0'', chrome ''59.0 beta'', iphone7\<lparr>browser_version := None\<rparr>,
              chrome ''60'', chrome ''61.0.1'', chrome ''dev''] :: unit + Browser list) = Inr kept \<and>
      subseq kept [chrome ''58.0'', chrome ''59.0 beta'', iphone7\<lparr>browser_version := None\<rparr>,
                   chrome ''60'', chrome ''61.0.1'', chrome ''dev'']"
    using loadAvailableBrowsers_retains
      [of "()" "[chrome ''58.0'', chrome ''59.0 beta'', iphone7\<lparr>browser_version := None\<rparr>,
                 chrome ''60'', chrome ''61.0.1'', chrome ''dev'']"]
    by blast
  ultimately show ?thesis by blast
qed

text \<open>
  The claim as stated fails on an entry whose version is the empty string: the field is
  present and does not match the pattern, and the entry is retained.
\<close>

theorem loadAvailableBrowsers_empty_version_counterexample:
  "loadAvailableBrowsers (Inr [chrome []] :: unit + Browser list) = Inr [chrome []] \<and>
   browser_version (chrome []) \<noteq> None \<and>
   browser_version (chrome []) = Some [] \<and>
   \<not> stable_pattern []"
  by (simp add: loadAvailableBrowsers_def stable_filter_def truthy_def stable_pattern_def
      integer_string_def chrome_def)

section \<open>Matching one spec\<close>

lemma matches_candidates: "filter (matches spec) catalog = candidates catalog spec"
  unfolding candidates_def by (rule filter_cong) (auto simp: matches_def)

lemma check_available_eq:
  "check_available spec bs =
     (if bs = [] then Inl (fatal ''No browsers available for the following spec:'' spec) else Inr bs)"
  by (simp add: check_available_def)

lemma array_includes_iff: "array_includes vs v \<longleftrightarrow> (\<exists>s \<in> set vs. v = Some s)"
  by (cases v) (auto simp: array_includes_def)

lemma length_insert_sorted: "length (insert_sorted f x xs) = Suc (length xs)"
  by (induction xs) auto

lemma length_array_sort: "length (array_sort f xs) = length xs"
  by (induction xs) (auto simp: length_insert_sorted)

lemma array_sort_Nil_iff: "array_sort f xs = [] \<longleftrightarrow> xs = []"
  using length_array_sort [of f xs] by (metis length_0_conv)

lemma chrome_spec_version: "spec_browser_version (chrome_spec v) = v"
  by (simp add: chrome_spec_def)

lemma example_candidates:
  "candidates example_catalog (chrome_spec v) =
     [chrome ''56.0'', chrome ''58.0'', chrome ''9.0'', chrome ''57.0'', chrome ''100.0'']"
  by (simp add: candidates_def example_defs)

text \<open>
  C4, as amended. For a spec whose constraint is \<open>ExactList vs\<close>, if at least one catalog
  entry equals the spec in device, os, os_version and browser and has a version string that
  is a member of \<open>vs\<close>, then \<open>getBrowsersThatMatchSpec\<close> returns exactly those entries, in
  catalog order; if there is none, the run exits with status 1. The raw version
  \<^verbatim>\<open>9,10\<close> is the list of the strings \<^verbatim>\<open>9\<close> and \<^verbatim>\<open>10\<close>.
\<close>

theorem ExactList_result:
  assumes "spec_browser_version spec = ExactList vs"
  shows "getBrowsersThatMatchSpec catalog spec =
           (if \<exists>b \<in> set (candidates catalog spec). \<exists>v \<in> set vs. browser_version b = Some v
            then Inr (filter (\<lambda>b. \<exists>v \<in> set vs. browser_version b = Some v)
                        (candidates catalog spec))
            else Inl (ProcessExit 1 [Text ''No browsers available for the following spec:'',
                                     Json spec, Text ''Exiting...''])) \<and>
         parseBrowserVersion (Some ''9,10'') = ExactList [''9'', ''10'']"
proof
  show "getBrowsersThatMatchSpec catalog spec =
           (if \<exists>b \<in> set (candidates catalog spec). \<exists>v \<in> set vs. browser_version b = Some v
            then Inr (filter (\<lambda>b. \<exists>v \<in> set vs. browser_version b = Some v)
                        (candidates catalog spec))
            else Inl (ProcessExit 1 [Text ''No browsers available for the following spec:'',
                                     Json spec, Text ''Exiting...'']))"
    using assms
    by (auto simp: getBrowsersThatMatchSpec_def matches_candidates check_available_eq
        array_includes_iff filter_empty_conv Let_def fatal_def)
  show "parseBrowserVersion (Some ''9,10'') = ExactList [''9'', ''10'']"
    by (simp add: parseBrowserVersion_def builtin_defs)
qed

theorem ExactList_result_witness:
  "spec_browser_version (chrome_spec (ExactList [''9.0'', ''58.0''])) = ExactList [''9.0'', ''58.0''] \<and>
   getBrowsersThatMatchSpec example_catalog (chrome_spec (ExactList [''9.0'', ''58.0''])) =
     Inr [chrome ''58.0'', chrome ''9.0'']"
proof -
  have v: "spec_browser_version (chrome_spec (ExactList [''9.0'', ''58.0''])) =
      ExactList [''9.0'', ''58.0'']"
    by (rule chrome_spec_version)
  show ?thesis
    using v ExactList_result [OF v, of example_catalog]
    by (simp add: example_candidates chrome_def)
qed

text \<open>
  The claim as stated fails when no entry qualifies: nothing is returned, the run exits.
\<close>

theorem ExactList_empty_counterexample:
  "spec_browser_version (chrome_spec (ExactList [''9'', ''10''])) = ExactList [''9'', ''10''] \<and>
   candidates example_catalog (chrome_spec (ExactList [''9'', ''10''])) =
     [chrome ''56.0'', chrome ''58.0'', chrome ''9.0'', chrome ''57.0'', chrome ''100.0''] \<and>
   getBrowsersThatMatchSpec example_catalog (chrome_spec (ExactList [''9'', ''10''])) \<noteq> Inr [] \<and>
   getBrowsersThatMatchSpec example_catalog (chrome_spec (ExactList [''9'', ''10''])) =
     Inl (ProcessExit 1 [Text ''No browsers available for the following spec:'',
                         Json (chrome_spec (ExactList [''9'', ''10''])), Text ''Exiting...''])"
  by (simp add: example_candidates getBrowsersThatMatchSpec_def matches_candidates
      check_available_def fatal_def array_includes_def chrome_def chrome_spec_version)

text \<open>
  C5. For a spec whose constraint is \<open>NoVersion\<close>, \<open>getBrowsersThatMatchSpec\<close> returns all
  catalog entries that equal the spec in device, os, os_version and browser, provided there
  is one; otherwise the run exits with status 1. The version fields play no part: replacing
  the versions of the catalog in any way selects the same entries.
\<close>

theorem NoVersion_result:
  assumes "spec_browser_version spec = NoVersion"
  shows "(candidates catalog spec \<noteq> [] \<longrightarrow>
            getBrowsersThatMatchSpec catalog spec = Inr (candidates catalog spec)) \<and>
         (candidates catalog spec = [] \<longrightarrow>
            getBrowsersThatMatchSpec catalog spec =
              Inl (ProcessExit 1 [Text ''No browsers available for the following spec:'',
                                  Json spec, Text ''Exiting...''])) \<and>
         candidates (map (\<lambda>b. b\<lparr>browser_version := f b\<rparr>) catalog) spec =
           map (\<lambda>b. b\<lparr>browser_version := f b\<rparr>) (candidates catalog spec)"
  using assms
  by (auto simp: getBrowsersThatMatchSpec_def matches_candidates check_available_eq
      candidates_def filter_map comp_def fatal_def)

theorem NoVersion_result_witness:
  "spec_browser_version iphone7_spec = NoVersion \<and>
   candidates [iphone7] iphone7_spec = [iphone7] \<and>
   getBrowsersThatMatchSpec [iphone7] iphone7_spec = Inr [iphone7] \<and>
   candidates [] iphone7_spec = [] \<and>
   getBrowsersThatMatchSpec [] iphone7_spec =
     Inl (ProcessExit 1 [Text ''No browsers available for the following spec:'',
                         Json iphone7_spec, Text ''Exiting...''])"
proof -
  have v: "spec_browser_version iphone7_spec = NoVersion" by (simp add: iphone7_spec_def)
  have c: "candidates [iphone7] iphone7_spec = [iphone7]" "candidates [] iphone7_spec = []"
    by (simp_all add: candidates_def iphone7_def iphone7_spec_def)
  show ?thesis
    using v c NoVersion_result [OF v, of "[iphone7]"] NoVersion_result [OF v, of "[]"]
    by simp
qed

text \<open>
  C2. \<open>getBrowsersThatMatchSpec\<close> ends the process if and only if the constraint is
  \<open>LastN n\<close> with fewer than \<open>n\<close> candidates, or nothing is left after the constraint is
  applied, whatever the kind of constraint. The exit status is 1, and the spec's JSON was
  written to standard error before. In every other case a non-empty list is returned.
\<close>

theorem getBrowsersThatMatchSpec_exit:
  "((\<exists>e. getBrowsersThatMatchSpec catalog spec = Inl e) \<longleftrightarrow>
      insufficient catalog spec \<or> nothing_left catalog spec) \<and>
   (\<forall>e. getBrowsersThatMatchSpec catalog spec = Inl e \<longrightarrow>
      status e = 1 \<and> Json spec \<in> set (stderr e)) \<and>
   (insufficient catalog spec \<longrightarrow>
      getBrowsersThatMatchSpec catalog spec =
        Inl (ProcessExit 1 [Text ''Not enough versions available for the following spec:'',
                            Json spec, Text ''Exiting...''])) \<and>
   (\<not> insufficient catalog spec \<and> nothing_left catalog spec \<longrightarrow>
      getBrowsersThatMatchSpec catalog spec =
        Inl (ProcessExit 1 [Text ''No browsers available for the following spec:'',
                            Json spec, Text ''Exiting...''])) \<and>
   (\<not> insufficient catalog spec \<and> \<not> nothing_left catalog spec \<longrightarrow>
      (\<exists>bs. getBrowsersThatMatchSpec catalog spec = Inr bs \<and> bs \<noteq> []))"
proof (cases "spec_browser_version spec")
  case NoVersion
  then show ?thesis
    by (auto simp: getBrowsersThatMatchSpec_def matches_candidates check_available_eq Let_def
        insufficient_def nothing_left_def fatal_def)
next
  case (ExactList vs)
  then show ?thesis
    by (auto simp: getBrowsersThatMatchSpec_def matches_candidates check_available_eq Let_def
        insufficient_def nothing_left_def fatal_def array_includes_iff)
next
  case (LastN n)
  then show ?thesis
    by (auto simp: getBrowsersThatMatchSpec_def matches_candidates check_available_eq Let_def
        insufficient_def nothing_left_def fatal_def length_array_sort array_sort_Nil_iff)
qed

theorem getBrowsersThatMatchSpec_exit_witness:
  "insufficient example_catalog (chrome_spec (LastN 7)) \<and>
   getBrowsersThatMatchSpec example_catalog (chrome_spec (LastN 7)) =
     Inl (ProcessExit 1 [Text ''Not enough versions available for the following spec:'',
                         Json (chrome_spec (LastN 7)), Text ''Exiting...'']) \<and>
   \<not> insufficient [] (chrome_spec NoVersion) \<and> nothing_left [] (chrome_spec NoVersion) \<and>
   getBrowsersThatMatchSpec [] (chrome_spec NoVersion) =
     Inl (ProcessExit 1 [Text ''No browsers available for the following spec:'',
                         Json (chrome_spec NoVersion), Text ''Exiting...'']) \<and>
   \<not> insufficient example_catalog (chrome_spec (ExactList [''58.0''])) \<and>
   \<not> nothing_left example_catalog (chrome_spec (ExactList [''58.0''])) \<and>
   (\<exists>bs. getBrowsersThatMatchSpec example_catalog (chrome_spec (ExactList [''58.0''])) = Inr bs \<and>
      bs \<noteq> [])"
proof -
  have a: "insufficient example_catalog (chrome_spec (LastN 7))"
    by (simp add: insufficient_def example_candidates chrome_spec_version)
  have b: "\<not> insufficient [] (chrome_spec NoVersion)" "nothing_left [] (chrome_spec NoVersion)"
    by (simp_all add: insufficient_def nothing_left_def candidates_def chrome_spec_version)
  have c: "\<not> insufficient example_catalog (chrome_spec (ExactList [''58.0'']))"
    "\<not> nothing_left example_catalog (chrome_spec (ExactList [''58.0'']))"
    by (simp_all add: insufficient_def nothing_left_def example_candidates chrome_def
        chrome_spec_version)
  show ?thesis
    using a b c
      getBrowsersThatMatchSpec_exit [of example_catalog "chrome_spec (LastN 7)"]
      getBrowsersThatMatchSpec_exit [of "[]" "chrome_spec NoVersion"]
      getBrowsersThatMatchSpec_exit [of example_catalog "chrome_spec (ExactList [''58.0''])"]
    by blast
qed

section \<open>The last \<open>n\<close> versions\<close>

subsection \<open>\<^verbatim>\<open>parseFloat\<close> on numeric version strings\<close>

lemma digit_not_space: "is_digit c \<Longrightarrow> \<not> is_space c"
  by (auto simp: is_digit_def is_space_def)

lemma digit_not_sign: "is_digit c \<Longrightarrow> c \<noteq> CHR ''-'' \<and> c \<noteq> CHR ''+'' \<and> c \<noteq> CHR ''I''"
  by (auto simp: is_digit_def)

text \<open>The value read from a string of the stable pattern is the decimal number it writes.\<close>

lemma parseFloat_integer:
  assumes "integer_string ds"
  shows "parseFloat (Some ds) = Num (of_nat (to_number ds))"
proof -
  obtain c cs where s: "ds = c # cs" "is_digit c" and all: "list_all is_digit ds"
    using assms by (cases ds) (auto simp: integer_string_def)
  have t: "takeWhile is_digit ds = ds" "dropWhile is_digit ds = []"
    using all by (simp_all add: takeWhile_all dropWhile_all)
  have w: "dropWhile is_space ds = ds" using s digit_not_space by simp
  have h: "take (Suc 0) ds \<noteq> ''-''" "take (Suc 0) ds \<noteq> ''+''" "take 8 ds \<noteq> ''Infinity''"
    "ds \<noteq> []"
    using s digit_not_sign by auto
  show ?thesis
    by (simp add: parseFloat_def Let_def exponent_part_def scale10_def w h t)
qed

lemma parseFloat_fraction:
  assumes "integer_string ds" "integer_string fs"
  shows "parseFloat (Some (ds @ ''.'' @ fs)) = Num (of_nat (to_number (ds @ fs)) / 10 ^ length fs)"
proof -
  define s where "s = ds @ ''.'' @ fs"
  obtain c cs where d: "ds = c # cs" "is_digit c" and all: "list_all is_digit ds"
    using assms by (cases ds) (auto simp: integer_string_def)
  have f: "list_all is_digit fs" "fs \<noteq> []" using assms by (simp_all add: integer_string_def)
  have t: "takeWhile is_digit s = ds" "dropWhile is_digit s = CHR ''.'' # fs"
    using all unfolding s_def
    by (simp_all add: takeWhile_tail dropWhile_append3 not_digit_dot takeWhile_all dropWhile_all)
  have t2: "takeWhile is_digit fs = fs" "dropWhile is_digit fs = []"
    using f by (simp_all add: takeWhile_all dropWhile_all)
  have w: "dropWhile is_space s = s" using d digit_not_space by (simp add: s_def)
  have h: "take (Suc 0) s \<noteq> ''-''" "take (Suc 0) s \<noteq> ''+''" "take 8 s \<noteq> ''Infinity''"
    "ds \<noteq> []"
    using d digit_not_sign by (auto simp: s_def)
  have "parseFloat (Some s) = Num (of_nat (to_number (ds @ fs)) / 10 ^ length fs)"
    using f(2) by (simp add: parseFloat_def Let_def exponent_part_def scale10_def w h t t2)
  then show ?thesis by (simp add: s_def)
qed

lemma parseFloat_numeric: "numeric_version v \<Longrightarrow> \<exists>q. parseFloat v = Num q"
  unfolding numeric_version_def stable_pattern_def
  using parseFloat_integer parseFloat_fraction by blast

lemma numeric_version_exec: "numeric_version (Some s) \<longleftrightarrow> exec_stable s \<and> length s \<le> 15"
  by (simp add: numeric_version_def exec_stable_pattern)

subsection \<open>The comparator orders numeric versions by their numbers, highest first\<close>

lemma compare_versions_negative:
  assumes "numeric_version (browser_version a)" "numeric_version (browser_version b)"
  shows "negative (compare_versions a b) \<longleftrightarrow> version_number b < version_number a"
proof -
  obtain p q where "parseFloat (browser_version a) = Num p" "parseFloat (browser_version b) = Num q"
    using assms parseFloat_numeric by blast
  then show ?thesis by (simp add: compare_versions_def version_number_def negative_def)
qed

lemma insert_sorted_insort_key:
  assumes "numeric_version (browser_version x)" "\<forall>y \<in> set ys. numeric_version (browser_version y)"
  shows "insert_sorted compare_versions x ys = insort_key (\<lambda>b. - version_number b) x ys"
  using assms by (induction ys) (auto simp: compare_versions_negative)

lemma array_sort_sort_key:
  assumes "\<forall>b \<in> set xs. numeric_version (browser_version b)"
  shows "array_sort compare_versions xs = sort_key (\<lambda>b. - version_number b) xs"
  using assms by (induction xs) (simp_all add: insert_sorted_insort_key)

text \<open>
  With numeric versions, equal or not: the result and the candidates left out are together
  the candidates, in descending order of their numbers.
\<close>

lemma LastN_ties:
  assumes v: "spec_browser_version spec = LastN n"
    and n: "0 < n" "n \<le> length (candidates catalog spec)"
    and num: "\<forall>b \<in> set (candidates catalog spec). numeric_version (browser_version b)"
  shows "\<exists>rs rest. getBrowsersThatMatchSpec catalog spec = Inr rs \<and> length rs = n \<and>
           mset rs + mset rest = mset (candidates catalog spec) \<and>
           sorted_wrt (\<lambda>a b. version_number b \<le> version_number a) (rs @ rest)"
proof -
  let ?k = "\<lambda>b. - version_number b"
  let ?ss = "sort_key ?k (candidates catalog spec)"
  have "length ?ss = length (candidates catalog spec)" by simp
  then have "take n ?ss \<noteq> []" using n by (auto simp del: length_sort)
  then have "getBrowsersThatMatchSpec catalog spec = Inr (take n ?ss)"
    using v n by (simp add: getBrowsersThatMatchSpec_def matches_candidates check_available_eq
        array_sort_sort_key [OF num])
  moreover have "length (take n ?ss) = n" using n by simp
  moreover have "mset (take n ?ss) + mset (drop n ?ss) = mset (candidates catalog spec)"
    by (metis append_take_drop_id mset_append mset_sort)
  moreover have "sorted_wrt (\<lambda>a b. version_number b \<le> version_number a) (take n ?ss @ drop n ?ss)"
    using sorted_sort_key [of ?k "candidates catalog spec"] by (simp add: sorted_wrt_map)
  ultimately show ?thesis by blast
qed

lemma sorted_wrt_strict:
  fixes f :: "'a \<Rightarrow> rat"
  shows "sorted_wrt (\<lambda>a b. f b \<le> f a) xs \<Longrightarrow> distinct (map f xs) \<Longrightarrow>
           sorted_wrt (\<lambda>a b. f b < f a) xs"
proof (induction xs)
  case Nil
  then show ?case by simp
next
  case (Cons x xs)
  have "f y < f x" if "y \<in> set xs" for y
  proof -
    have "f y \<le> f x" using Cons.prems(1) that by simp
    moreover have "f x \<notin> f ` set xs" using Cons.prems(2) by simp
    then have "f y \<noteq> f x" using that by (metis imageI)
    ultimately show ?thesis by simp
  qed
  then show ?case using Cons by simp
qed

text \<open>
  C1, as amended. For a spec whose constraint is \<open>LastN n\<close> with \<open>n\<close> at least 1, if the
  candidates (the catalog entries equal to the spec in device, os, os_version and browser)
  number at least \<open>n\<close> and carry numeric version strings with pairwise distinct numbers,
  then \<open>getBrowsersThatMatchSpec\<close> returns exactly the \<open>n\<close> candidates with the highest
  numbers, in descending order: \<open>n\<close> candidates, strictly descending, and every candidate
  left out is lower than every one returned. The number of a version is what
  \<^verbatim>\<open>parseFloat\<close> reads.
\<close>

theorem LastN_result:
  assumes v: "spec_browser_version spec = LastN n"
    and n: "0 < n" "n \<le> length (candidates catalog spec)"
    and num: "\<forall>b \<in> set (candidates catalog spec). numeric_version (browser_version b)"
    and dist: "distinct (map version_number (candidates catalog spec))"
  shows "\<exists>rs. getBrowsersThatMatchSpec catalog spec = Inr rs \<and> length rs = n \<and>
           set rs \<subseteq> set (candidates catalog spec) \<and>
           sorted_wrt (\<lambda>a b. version_number b < version_number a) rs \<and>
           (\<forall>x \<in> set (candidates catalog spec) - set rs. \<forall>r \<in> set rs.
              version_number x < version_number r)"
proof -
  from LastN_ties [OF v n num] obtain rs rest where
    r: "getBrowsersThatMatchSpec catalog spec = Inr rs" "length rs = n" and
    m: "mset rs + mset rest = mset (candidates catalog spec)" and
    s: "sorted_wrt (\<lambda>a b. version_number b \<le> version_number a) (rs @ rest)"
    by blast
  have m': "mset (rs @ rest) = mset (candidates catalog spec)" using m by simp
  have d: "distinct (map version_number (rs @ rest))"
    using dist m' by (metis mset_map mset_eq_imp_distinct_iff)
  have strict: "sorted_wrt (\<lambda>a b. version_number b < version_number a) (rs @ rest)"
    using s d by (rule sorted_wrt_strict)
  have sets: "set rs \<union> set rest = set (candidates catalog spec)"
    using m' by (metis set_append set_mset_mset)
  have "sorted_wrt (\<lambda>a b. version_number b < version_number a) rs"
    using strict by (simp add: sorted_wrt_append)
  moreover have "\<forall>x \<in> set (candidates catalog spec) - set rs. \<forall>r \<in> set rs.
              version_number x < version_number r"
    using strict sets by (auto simp: sorted_wrt_append)
  ultimately show ?thesis using r sets by blast
qed

lemma chrome_version_number:
  "version_number (chrome ''56.0'') = 56" "version_number (chrome ''58.0'') = 58"
  "version_number (chrome ''9.0'') = 9" "version_number (chrome ''57.0'') = 57"
  "version_number (chrome ''100.0'') = 100"
  by (simp_all add: version_number_def chrome_def builtin_defs Let_def)

lemma chrome_numeric:
  "numeric_version (browser_version (chrome v)) \<longleftrightarrow> exec_stable v \<and> length v \<le> 15"
  by (simp add: chrome_def numeric_version_exec)

lemma example_stable:
  "exec_stable ''56.0''" "exec_stable ''58.0''" "exec_stable ''9.0''" "exec_stable ''57.0''"
  "exec_stable ''100.0''"
  by (simp_all add: exec_stable_def is_digit_def)

lemma example_numeric:
  "\<forall>b \<in> set (candidates example_catalog (chrome_spec v)). numeric_version (browser_version b)"
  by (simp add: example_candidates chrome_numeric example_stable)

lemma example_distinct:
  "distinct (map version_number (candidates example_catalog (chrome_spec v)))"
  by (simp add: example_candidates chrome_version_number)

theorem LastN_result_witness:
  "parseBrowserVersion (Some ''last 2'') = LastN 2 \<and>
   length (candidates example_catalog (chrome_spec (LastN 2))) = 5 \<and>
   distinct (map version_number (candidates example_catalog (chrome_spec (LastN 2)))) \<and>
   getBrowsersThatMatchSpec example_catalog (chrome_spec (LastN 2)) =
     Inr [chrome ''100.0'', chrome ''58.0''] \<and>
   (\<exists>rs. getBrowsersThatMatchSpec example_catalog (chrome_spec (LastN 2)) = Inr rs \<and>
      length rs = 2 \<and> set rs \<subseteq> set (candidates example_catalog (chrome_spec (LastN 2))) \<and>
      sorted_wrt (\<lambda>a b. version_number b < version_number a) rs \<and>
      (\<forall>x \<in> set (candidates example_catalog (chrome_spec (LastN 2))) - set rs. \<forall>r \<in> set rs.
         version_number x < version_number r))"
proof (intro conjI)
  show "parseBrowserVersion (Some ''last 2'') = LastN 2"
    by (simp add: parseBrowserVersion_def builtin_defs)
  show "length (candidates example_catalog (chrome_spec (LastN 2))) = 5"
    by (simp add: example_candidates)
  show "distinct (map version_number (candidates example_catalog (chrome_spec (LastN 2))))"
    by (rule example_distinct)
  show "getBrowsersThatMatchSpec example_catalog (chrome_spec (LastN 2)) =
     Inr [chrome ''100.0'', chrome ''58.0'']"
    by (simp add: getBrowsersThatMatchSpec_def matches_candidates example_candidates
        chrome_spec_version check_available_def chrome_def builtin_defs Let_def)
  have n: "(0::nat) < 2" "2 \<le> length (candidates example_catalog (chrome_spec (LastN 2)))"
    by (simp_all add: example_candidates)
  show "\<exists>rs. getBrowsersThatMatchSpec example_catalog (chrome_spec (LastN 2)) = Inr rs \<and>
      length rs = 2 \<and> set rs \<subseteq> set (candidates example_catalog (chrome_spec (LastN 2))) \<and>
      sorted_wrt (\<lambda>a b. version_number b < version_number a) rs \<and>
      (\<forall>x \<in> set (candidates example_catalog (chrome_spec (LastN 2))) - set rs. \<forall>r \<in> set rs.
         version_number x < version_number r)"
    by (rule LastN_result [OF chrome_spec_version n example_numeric example_distinct])
qed

text \<open>
  The claim as stated fails for \<open>n = 0\<close>, which \<^verbatim>\<open>last 0\<close> asks for: there are at least 0
  candidates, with distinct numeric versions, and the run exits instead of returning the
  0 highest.
\<close>

theorem LastN_zero_counterexample:
  "parseBrowserVersion (Some ''last 0'') = LastN 0 \<and>
   spec_browser_version (chrome_spec (LastN 0)) = LastN 0 \<and>
   0 \<le> length (candidates example_catalog (chrome_spec (LastN 0))) \<and>
   list_all (numeric_version \<circ> browser_version) (candidates example_catalog (chrome_spec (LastN 0))) \<and>
   distinct (map version_number (candidates example_catalog (chrome_spec (LastN 0)))) \<and>
   getBrowsersThatMatchSpec example_catalog (chrome_spec (LastN 0)) \<noteq> Inr [] \<and>
   getBrowsersThatMatchSpec example_catalog (chrome_spec (LastN 0)) =
     Inl (ProcessExit 1 [Text ''No browsers available for the following spec:'',
                         Json (chrome_spec (LastN 0)), Text ''Exiting...''])"
proof (intro conjI)
  show "parseBrowserVersion (Some ''last 0'') = LastN 0"
    by (simp add: parseBrowserVersion_def builtin_defs)
  show "spec_browser_version (chrome_spec (LastN 0)) = LastN 0"
    by (rule chrome_spec_version)
  show "0 \<le> length (candidates example_catalog (chrome_spec (LastN 0)))"
    by simp
  show "list_all (numeric_version \<circ> browser_version)
      (candidates example_catalog (chrome_spec (LastN 0)))"
    using example_numeric [of "LastN 0"] by (simp add: list_all_iff)
  show "distinct (map version_number (candidates example_catalog (chrome_spec (LastN 0))))"
    by (rule example_distinct)
  show e: "getBrowsersThatMatchSpec example_catalog (chrome_spec (LastN 0)) =
     Inl (ProcessExit 1 [Text ''No browsers available for the following spec:'',
                         Json (chrome_spec (LastN 0)), Text ''Exiting...''])"
    by (simp add: getBrowsersThatMatchSpec_def chrome_spec_version check_available_def fatal_def)
  show "getBrowsersThatMatchSpec example_catalog (chrome_spec (LastN 0)) \<noteq> Inr []"
    by (simp add: e)
qed

section \<open>The aggregator\<close>

subsection \<open>The targets come from the catalog\<close>

lemma set_insert_sorted: "set (insert_sorted f x xs) = insert x (set xs)"
  by (induction xs) auto

lemma set_array_sort: "set (array_sort f xs) = set xs"
  by (induction xs) (auto simp: set_insert_sorted)

lemma mset_insert_sorted: "mset (insert_sorted f x xs) = add_mset x (mset xs)"
  by (induction xs) auto

text \<open>Whatever the comparator, sorting permutes.\<close>

lemma mset_array_sort: "mset (array_sort f xs) = mset xs"
  by (induction xs) (auto simp: mset_insert_sorted)

lemma getBrowsersThatMatchSpec_subset:
  assumes "getBrowsersThatMatchSpec catalog spec = Inr bs"
  shows "set bs \<subseteq> set catalog"
proof (cases "spec_browser_version spec")
  case NoVersion
  with assms show ?thesis
    by (auto simp: getBrowsersThatMatchSpec_def check_available_eq Let_def split: if_splits)
next
  case (ExactList vs)
  with assms show ?thesis
    by (auto simp: getBrowsersThatMatchSpec_def check_available_eq Let_def split: if_splits)
next
  case (LastN n)
  with assms have "bs = take n (array_sort compare_versions (filter (matches spec) catalog))"
    by (auto simp: getBrowsersThatMatchSpec_def check_available_eq Let_def split: if_splits)
  then have "set bs \<subseteq> set (array_sort compare_versions (filter (matches spec) catalog))"
    by (simp add: set_take_subset)
  then show ?thesis by (auto simp: set_array_sort)
qed

lemma assign_values:
  "snd ` set (entries (assign m k b)) \<subseteq> insert b (snd ` set (entries m))"
  by (auto simp: assign_def split: if_splits)

lemma addBrowser_values:
  assumes "snd ` set (entries (fst st)) \<subseteq> S" "b \<in> S"
  shows "snd ` set (entries (fst (addBrowser st b))) \<subseteq> S"
proof -
  have "snd ` set (entries (assign (fst st) (getBrowserId b) b)) \<subseteq> S"
    using assms assign_values [of "fst st" "getBrowserId b" b] by blast
  then show ?thesis by (simp add: addBrowser_def Let_def)
qed

lemma addBrowsers_values:
  assumes "snd ` set (entries (fst st)) \<subseteq> S" "set bs \<subseteq> S"
  shows "snd ` set (entries (fst (addBrowsers st bs))) \<subseteq> S"
  using assms unfolding addBrowsers_def
proof (induction bs arbitrary: st)
  case Nil
  then show ?case by simp
next
  case (Cons b bs)
  have "snd ` set (entries (fst (addBrowser st b))) \<subseteq> S"
    using Cons.prems by (intro addBrowser_values) auto
  then show ?case using Cons.IH [of "addBrowser st b"] Cons.prems by simp
qed

lemma forEach_spec_values:
  assumes "forEach_spec catalog st specs = Inr st'"
    and "snd ` set (entries (fst st)) \<subseteq> set catalog"
  shows "snd ` set (entries (fst st')) \<subseteq> set catalog"
  using assms
proof (induction specs arbitrary: st)
  case Nil
  then show ?case by simp
next
  case (Cons spec specs)
  from Cons.prems(1) obtain bs where
    bs: "getBrowsersThatMatchSpec catalog spec = Inr bs" and
    r: "forEach_spec catalog (addBrowsers st bs) specs = Inr st'"
    by (auto split: sum.splits)
  have "snd ` set (entries (fst (addBrowsers st bs))) \<subseteq> set catalog"
    using Cons.prems(2) getBrowsersThatMatchSpec_subset [OF bs] by (rule addBrowsers_values)
  with r show ?case by (rule Cons.IH)
qed

lemma forEach_group_values:
  assumes "forEach_group catalog st groups = Inr st'"
    and "snd ` set (entries (fst st)) \<subseteq> set catalog"
  shows "snd ` set (entries (fst st')) \<subseteq> set catalog"
  using assms
proof (induction groups arbitrary: st)
  case Nil
  then show ?case by simp
next
  case (Cons g groups)
  from Cons.prems(1) obtain st1 where
    s: "forEach_spec catalog st (resolve g) = Inr st1" and
    r: "forEach_group catalog st1 groups = Inr st'"
    by (auto split: sum.splits)
  from s Cons.prems(2) have "snd ` set (entries (fst st1)) \<subseteq> set catalog"
    by (rule forEach_spec_values)
  with r show ?case by (rule Cons.IH)
qed

text \<open>
  C9. Whenever \<open>getTargetBrowsers\<close> returns, every element of the returned target list is an
  element of the catalog it was given.
\<close>

theorem getTargetBrowsers_subset:
  assumes "getTargetBrowsers availableBrowsers aggregatedSpecs = Inr (targets, warnings)"
  shows "set targets \<subseteq> set availableBrowsers"
proof -
  from assms obtain st where
    s: "forEach_group availableBrowsers (empty_object, []) aggregatedSpecs = Inr st" and
    t: "targets = Object_values (fst st)"
    by (auto simp: getTargetBrowsers_def split: sum.splits)
  have "snd ` set (entries (fst st)) \<subseteq> set availableBrowsers"
    using s by (rule forEach_group_values) (simp add: empty_object_def)
  then show ?thesis by (simp add: t Object_values_def)
qed

lemma example_run:
  "getTargetBrowsers example_catalog [chrome_group [Some ''last 2'', Some ''58.0,9.0'']] =
     Inr ([chrome ''100.0'', chrome ''58.0'', chrome ''9.0''], [Text ''duplicate browser''])"
  by (simp add: aggregator_defs matcher_defs builtin_defs example_defs chrome_group_def Let_def)

theorem getTargetBrowsers_subset_witness:
  "getTargetBrowsers example_catalog [chrome_group [Some ''last 2'', Some ''58.0,9.0'']] =
     Inr ([chrome ''100.0'', chrome ''58.0'', chrome ''9.0''], [Text ''duplicate browser'']) \<and>
   set [chrome ''100.0'', chrome ''58.0'', chrome ''9.0''] \<subseteq> set example_catalog"
  using example_run getTargetBrowsers_subset [OF example_run] by blast

subsection \<open>Identity keys\<close>

text \<open>
  An id holds at least four underscores. So it is never an array index (the keys that
  \<^verbatim>\<open>Object.values\<close> would list first), and never the name of a field of a catalog
  entry.
\<close>

lemma getBrowserId_underscores:
  "4 \<le> length (filter (\<lambda>c. c = CHR ''_'') (getBrowserId b))"
  by (simp add: getBrowserId_def)

lemma getBrowserId_not_Browser_key: "getBrowserId b \<notin> set Browser_keys"
proof
  assume "getBrowserId b \<in> set Browser_keys"
  then have "length (filter (\<lambda>c. c = CHR ''_'') (getBrowserId b)) \<le> 1"
    by (auto simp: Browser_keys_def)
  with getBrowserId_underscores [of b] show False by simp
qed

lemma map_of_overwrite:
  "map_of (map (\<lambda>(k', v). if k' = k then (k', b) else (k', v)) es) x =
     (if x = k \<and> k \<in> fst ` set es then Some b else map_of es x)"
proof (induction es)
  case Nil
  then show ?case by simp
next
  case (Cons e es)
  obtain a v where e: "e = (a, v)" by (cases e)
  show ?case using Cons.IH by (cases "a = k"; cases "x = k") (simp_all add: e)
qed

lemma keys_overwrite:
  "map fst (map (\<lambda>(k', v). if k' = k then (k', b) else (k', v)) es) = map fst es"
  by (induction es) auto

lemma assign_lookup:
  assumes "k \<noteq> ''__proto__''"
  shows "map_of (entries (assign m k b)) = (map_of (entries m))(k \<mapsto> b)"
  using assms by (auto simp: assign_def map_of_overwrite fun_eq_iff map_add_def
      map_of_eq_None_iff [symmetric] simp del: map_of_eq_None_iff split: option.splits)

lemma assign_distinct:
  assumes "distinct (map fst (entries m))"
  shows "distinct (map fst (entries (assign m k b)))"
  using assms by (auto simp: assign_def keys_overwrite simp del: map_map)

lemma assign_proto: "entries (assign m ''__proto__'' b) = entries m"
  by (simp add: assign_def)

lemma addBrowsers_snoc: "addBrowsers st (bs @ [b]) = addBrowser (addBrowsers st bs) b"
  by (simp add: addBrowsers_def)

lemma addBrowsers_distinct:
  "distinct (map fst (entries (fst st))) \<Longrightarrow>
     distinct (map fst (entries (fst (addBrowsers st bs))))"
  by (induction bs rule: rev_induct)
     (simp_all add: addBrowsers_def addBrowser_def Let_def assign_distinct)

lemma addBrowsers_lookup:
  assumes "k \<noteq> ''__proto__''"
  shows "map_of (entries (fst (addBrowsers st bs))) k =
           (if filter (\<lambda>b. getBrowserId b = k) bs = [] then map_of (entries (fst st)) k
            else Some (last (filter (\<lambda>b. getBrowserId b = k) bs)))"
proof (induction bs rule: rev_induct)
  case Nil
  then show ?case by (simp add: addBrowsers_def)
next
  case (snoc b bs)
  show ?case
  proof (cases "getBrowserId b = ''__proto__''")
    case True
    then show ?thesis using snoc assms
      by (simp add: addBrowsers_snoc addBrowser_def Let_def assign_proto)
  next
    case False
    then show ?thesis using snoc assms
      by (simp add: addBrowsers_snoc addBrowser_def Let_def assign_lookup)
  qed
qed

lemma single_entry:
  assumes "distinct (map fst es)" "map_of es k = Some v"
  shows "filter (\<lambda>e. fst e = k) es = [(k, v)]"
  using assms
proof (induction es)
  case Nil
  then show ?case by simp
next
  case (Cons e es)
  show ?case
  proof (cases "fst e = k")
    case True
    then have "k \<notin> fst ` set es" using Cons.prems(1) by simp
    then have "filter (\<lambda>e. fst e = k) es = []"
      unfolding filter_empty_conv by (metis imageI)
    then show ?thesis using True Cons.prems(2) by (cases e) auto
  next
    case False
    then show ?thesis using Cons by (cases e) auto
  qed
qed

lemma addBrowsers_keys:
  assumes "b \<in> set bs" "getBrowserId b \<noteq> ''__proto__''"
  shows "getBrowserId b \<in> set (map fst (entries (fst (addBrowsers st bs))))"
proof -
  have "map_of (entries (fst (addBrowsers st bs))) (getBrowserId b) \<noteq> None"
    using assms by (auto simp: addBrowsers_lookup filter_empty_conv)
  then show ?thesis by (simp add: map_of_eq_None_iff)
qed

text \<open>
  Last write wins, for every identity key but \<^verbatim>\<open>__proto__\<close>: when the insertions at
  positions \<open>i < j\<close> share the key \<open>k\<close>, the final map has exactly one entry for \<open>k\<close>, the
  last browser inserted under it, and the insertion at \<open>j\<close> wrote a duplicate warning.
  Insertion is a total function: no collision stops it.
\<close>

lemma addBrowsers_last_write_wins:
  assumes k: "k \<noteq> ''__proto__''" and d: "distinct (map fst (entries (fst st)))"
    and ij: "i < j" "j < length bs" "getBrowserId (bs ! i) = k" "getBrowserId (bs ! j) = k"
  shows "filter (\<lambda>e. fst e = k) (entries (fst (addBrowsers st bs))) =
           [(k, last (filter (\<lambda>b. getBrowserId b = k) bs))] \<and>
         snd (addBrowser (addBrowsers st (take j bs)) (bs ! j)) =
           snd (addBrowsers st (take j bs)) @ [Text ''duplicate browser'']"
proof
  have "bs ! j \<in> set bs" using ij by simp
  then have "filter (\<lambda>b. getBrowserId b = k) bs \<noteq> []"
    using ij by (auto simp: filter_empty_conv)
  then have "map_of (entries (fst (addBrowsers st bs))) k =
      Some (last (filter (\<lambda>b. getBrowserId b = k) bs))"
    using k by (simp add: addBrowsers_lookup)
  with addBrowsers_distinct [OF d]
  show "filter (\<lambda>e. fst e = k) (entries (fst (addBrowsers st bs))) =
           [(k, last (filter (\<lambda>b. getBrowserId b = k) bs))]"
    by (rule single_entry)
  have "bs ! i \<in> set (take j bs)" using ij by (auto simp: in_set_conv_nth intro!: exI [of _ i])
  then have "k \<in> set (map fst (entries (fst (addBrowsers st (take j bs)))))"
    using addBrowsers_keys [of "bs ! i" "take j bs" st] k ij by simp
  then have "has_property k (fst (addBrowsers st (take j bs)))"
    by (simp add: has_property_def)
  then show "snd (addBrowser (addBrowsers st (take j bs)) (bs ! j)) =
           snd (addBrowsers st (take j bs)) @ [Text ''duplicate browser'']"
    using ij by (simp add: addBrowser_def Let_def)
qed

text \<open>
  C6. The claim fails for the identity key \<^verbatim>\<open>__proto__\<close>, the id of a catalog entry whose
  os, os_version, browser_version and device are empty and whose browser is
  \<^verbatim>\<open>proto\<close>. The key is found in the empty map, so already the first insertion writes a
  duplicate warning; the assignment replaces the prototype of the map and creates no
  entry. After two insertions under this key the map has no entry, and the target list of
  the run is empty.
\<close>

theorem addBrowsers_proto_key:
  "getBrowserId proto_browser = ''__proto__'' \<and>
   addBrowsers (empty_object, []) [proto_browser, proto_browser] =
     (\<lparr>entries = [], proto = Some proto_browser\<rparr>,
      [Text ''duplicate browser'', Text ''duplicate browser'']) \<and>
   getTargetBrowsers [proto_browser] [group_of proto_browser, group_of proto_browser] =
     Inr ([], [Text ''duplicate browser'', Text ''duplicate browser''])"
  by (simp add: aggregator_defs matcher_defs builtin_defs proto_browser_def group_of_def Let_def)

text \<open>
  C10. \<open>getBrowserId\<close> is not injective: two distinct catalog entries with an underscore in
  a field (in \<open>os\<close> of the one, in \<open>os_version\<close> of the other) have the same key. Matched one
  after the other, the later entry replaces the earlier in the target map; the run returns
  the later entry alone, with one duplicate warning.
\<close>

theorem getBrowserId_not_injective:
  "\<not> inj getBrowserId \<and>
   (\<exists>a b. a \<noteq> b \<and> getBrowserId a = getBrowserId b \<and>
      os a = Some ''OS_X'' \<and> os_version b = Some ''X_Sierra'' \<and>
      getTargetBrowsers [a, b] [group_of a, group_of b] = Inr ([b], [Text ''duplicate browser'']))"
proof
  have ne: "osx_a \<noteq> osx_b" by (simp add: osx_a_def osx_b_def)
  have eq: "getBrowserId osx_a = getBrowserId osx_b"
    by (simp add: getBrowserId_def osx_a_def osx_b_def element_string_def)
  have run: "getTargetBrowsers [osx_a, osx_b] [group_of osx_a, group_of osx_b] =
      Inr ([osx_b], [Text ''duplicate browser''])"
    by (simp add: aggregator_defs matcher_defs builtin_defs osx_a_def osx_b_def group_of_def
        Let_def)
  show "\<not> inj getBrowserId" using ne eq by (auto simp: inj_def)
  show "\<exists>a b. a \<noteq> b \<and> getBrowserId a = getBrowserId b \<and>
      os a = Some ''OS_X'' \<and> os_version b = Some ''X_Sierra'' \<and>
      getTargetBrowsers [a, b] [group_of a, group_of b] = Inr ([b], [Text ''duplicate browser''])"
    using ne eq run by (intro exI [of _ osx_a] exI [of _ osx_b]) (simp add: osx_a_def osx_b_def)
qed

theorem getBrowserId_not_injective_witness:
  "\<exists>a b. a \<noteq> b \<and> getBrowserId a = getBrowserId b"
  using getBrowserId_not_injective by blast

section \<open>The catalog array is left as it was\<close>

lemma frame_refl: "frame h h"
  by (simp add: frame_def)

lemma frame_trans: "frame h h1 \<Longrightarrow> frame h1 h2 \<Longrightarrow> frame h h2"
  by (auto simp: frame_def)

text \<open>
  One call of the matcher: the arrays that existed are kept (the array sorted in place is
  the one \<^verbatim>\<open>filter\<close> has just allocated), and the result is the one of the function on
  values.
\<close>

lemma getBrowsersThatMatchSpec_at_frame:
  assumes "a < length h" "getBrowsersThatMatchSpec_at h a spec = (h', r)"
  shows "frame h h' \<and>
         (case r of
            Inl e \<Rightarrow> getBrowsersThatMatchSpec (h ! a) spec = Inl e
          | Inr p \<Rightarrow> p < length h' \<and> getBrowsersThatMatchSpec (h ! a) spec = Inr (h' ! p))"
proof (cases "spec_browser_version spec")
  case NoVersion
  with assms show ?thesis
    by (auto simp: getBrowsersThatMatchSpec_at_def getBrowsersThatMatchSpec_def alloc_def
        check_available_at_def check_available_def frame_def nth_append split: if_splits)
next
  case (ExactList vs)
  with assms show ?thesis
    by (auto simp: getBrowsersThatMatchSpec_at_def getBrowsersThatMatchSpec_def alloc_def
        check_available_at_def check_available_def frame_def nth_append Let_def split: if_splits)
next
  case (LastN n)
  with assms show ?thesis
    by (auto simp: getBrowsersThatMatchSpec_at_def getBrowsersThatMatchSpec_def alloc_def
        check_available_at_def check_available_def frame_def nth_append Let_def
        length_array_sort split: if_splits)
qed

lemma forEach_spec_at_frame:
  assumes "a < length h" "forEach_spec_at h a st specs = (h', r)"
  shows "frame h h' \<and> r = forEach_spec (h ! a) st specs"
  using assms
proof (induction specs arbitrary: h st)
  case Nil
  then show ?case by (simp add: frame_refl)
next
  case (Cons spec specs)
  obtain h1 r1 where g: "getBrowsersThatMatchSpec_at h a spec = (h1, r1)" by fastforce
  note f = getBrowsersThatMatchSpec_at_frame [OF Cons.prems(1) g]
  show ?case
  proof (cases r1)
    case (Inl e)
    with Cons.prems g f show ?thesis by auto
  next
    case (Inr p)
    with f have eq: "getBrowsersThatMatchSpec (h ! a) spec = Inr (h1 ! p)" and fr: "frame h h1"
      by simp_all
    from fr Cons.prems(1) have a1: "a < length h1" "h1 ! a = h ! a" by (auto simp: frame_def)
    from Cons.prems(2) g Inr have
      "forEach_spec_at h1 a (addBrowsers st (h1 ! p)) specs = (h', r)" by simp
    from Cons.IH [OF a1(1) this]
    have "frame h1 h'" "r = forEach_spec (h1 ! a) (addBrowsers st (h1 ! p)) specs"
      by simp_all
    with fr eq a1 show ?thesis by (auto intro: frame_trans)
  qed
qed

lemma forEach_group_at_frame:
  assumes "a < length h" "forEach_group_at h a st groups = (h', r)"
  shows "frame h h' \<and> r = forEach_group (h ! a) st groups"
  using assms
proof (induction groups arbitrary: h st)
  case Nil
  then show ?case by (simp add: frame_refl)
next
  case (Cons g groups)
  obtain h1 r1 where s: "forEach_spec_at h a st (resolve g) = (h1, r1)" by fastforce
  note f = forEach_spec_at_frame [OF Cons.prems(1) s]
  show ?case
  proof (cases r1)
    case (Inl e)
    with f have e: "forEach_spec (h ! a) st (resolve g) = Inl e" and fr: "frame h h1"
      by simp_all
    from Cons.prems(2) s Inl have "h' = h1" "r = Inl e" by simp_all
    with e fr show ?thesis by simp
  next
    case (Inr st1)
    from f Cons.prems(1) have a1: "a < length h1" "h1 ! a = h ! a" by (auto simp: frame_def)
    from Cons.prems(2) s Inr have "forEach_group_at h1 a st1 groups = (h', r)" by simp
    from Cons.IH [OF a1(1) this] have "frame h1 h'" "r = forEach_group (h1 ! a) st1 groups"
      by simp_all
    moreover from f Inr have "forEach_spec (h ! a) st (resolve g) = Inr st1" "frame h h1"
      by simp_all
    ultimately show ?thesis using a1 by (auto intro: frame_trans)
  qed
qed

text \<open>
  C8. \<open>getTargetBrowsers\<close> does not modify the array it is given: after the run, whether it
  returns or exits, every array that existed before holds the same elements in the same
  order, the catalog among them. The target list is an array allocated by the run, and
  what the run returns or writes is what the function on values computes from the catalog.
\<close>

theorem getTargetBrowsers_frame:
  assumes "availableBrowsers < length h"
    and "getTargetBrowsers_at h availableBrowsers aggregatedSpecs = (h', r)"
  shows "length h \<le> length h' \<and> (\<forall>p < length h. h' ! p = h ! p) \<and>
         h' ! availableBrowsers = h ! availableBrowsers \<and>
         (case r of
            Inl e \<Rightarrow> getTargetBrowsers (h ! availableBrowsers) aggregatedSpecs = Inl e
          | Inr (targets, warnings) \<Rightarrow>
              targets < length h' \<and> length h \<le> targets \<and>
              getTargetBrowsers (h ! availableBrowsers) aggregatedSpecs =
                Inr (h' ! targets, warnings))"
proof -
  obtain h1 r1 where
    g: "forEach_group_at h availableBrowsers (empty_object, []) aggregatedSpecs = (h1, r1)"
    by fastforce
  note f = forEach_group_at_frame [OF assms(1) g]
  show ?thesis
  proof (cases r1)
    case (Inl e)
    with f
    have e: "forEach_group (h ! availableBrowsers) (empty_object, []) aggregatedSpecs = Inl e"
      and fr: "frame h h1" by simp_all
    from assms(2) g Inl have "h' = h1" "r = Inl e" by (simp_all add: getTargetBrowsers_at_def)
    with e fr assms(1) show ?thesis by (simp add: getTargetBrowsers_def frame_def)
  next
    case (Inr st)
    with f
    have e: "forEach_group (h ! availableBrowsers) (empty_object, []) aggregatedSpecs = Inr st"
      and fr: "frame h h1" by simp_all
    from assms(2) g Inr have "h' = h1 @ [Object_values (fst st)]" "r = Inr (length h1, snd st)"
      by (auto simp: getTargetBrowsers_at_def alloc_def)
    with e fr assms(1) show ?thesis
      by (auto simp: getTargetBrowsers_def frame_def nth_append)
  qed
qed

theorem getTargetBrowsers_frame_witness:
  "(0::nat) < length [example_catalog] \<and>
   fst (getTargetBrowsers_at [example_catalog] 0
          [chrome_group [Some ''last 2'', Some ''58.0,9.0'']]) ! 0 = example_catalog \<and>
   fst (getTargetBrowsers_at [example_catalog] 0
          [chrome_group [Some ''last 2'', Some ''58.0,9.0'']]) ! 1 =
     [chrome ''100.0'', chrome ''58.0'', chrome ''57.0'', chrome ''56.0'', chrome ''9.0''] \<and>
   snd (getTargetBrowsers_at [example_catalog] 0
          [chrome_group [Some ''last 2'', Some ''58.0,9.0'']]) =
     Inr (5, [Text ''duplicate browser''])"
proof -
  let ?run = "getTargetBrowsers_at [example_catalog] 0 [chrome_group [Some ''last 2'', Some ''58.0,9.0'']]"
  have a: "(0::nat) < length [example_catalog]" by simp
  have "?run = (fst ?run, snd ?run)" by simp
  from getTargetBrowsers_frame [OF a this]
  have 1: "fst ?run ! 0 = example_catalog" by simp
  have 2: "?run =
      ([example_catalog,
        [chrome ''100.0'', chrome ''58.0'', chrome ''57.0'', chrome ''56.0'', chrome ''9.0''],
        [chrome ''100.0'', chrome ''58.0''],
        [chrome ''56.0'', chrome ''58.0'', chrome ''9.0'', chrome ''57.0'', chrome ''100.0''],
        [chrome ''58.0'', chrome ''9.0''],
        [chrome ''100.0'', chrome ''58.0'', chrome ''9.0'']],
       Inr (5, [Text ''duplicate browser'']))"
    by (simp add: getTargetBrowsers_at_def getBrowsersThatMatchSpec_at_def check_available_at_def
        alloc_def aggregator_defs matcher_defs builtin_defs example_defs chrome_group_def
        Let_def)
  show ?thesis using a 1 by (simp add: 2)
qed

end
